theory Spec2Isabelle
  imports Main
begin

section \<open>Snapshots, time and the store\<close>

text \<open>
  Modelled from the spec: the snapshot descriptor of package \<open>snapstore\<close> (section 3 of the
  specification).  The collector reads only \<open>Kind\<close> and \<open>CreatedOn\<close>; the directory and
  the name make up the identity of a snapshot.
\<close>

datatype kind = Full | Delta

record snapshot =
  Kind :: kind
  CreatedOn :: int
  SnapDir :: string
  SnapName :: string

text \<open>
  An instant is an \<open>int\<close>: nanoseconds since midnight, 1 January 1970, UTC.  A
  \<open>time.Duration\<close> is a count of nanoseconds held in 64 signed bits.
\<close>

definition Hour :: int where
  "Hour = 3600000000000"

definition maxDuration :: int where
  "maxDuration = 2 ^ 63 - 1"

definition minDuration :: int where
  "minDuration = - (2 ^ 63)"

text \<open>
  \<open>t.Truncate(d)\<close> rounds \<open>t\<close> down to a multiple of \<open>d\<close> counted from Go's zero time,
  which lies a whole number of days before 1970, so that for \<open>time.Hour\<close> and
  \<open>24 * time.Hour\<close> the multiples are the same as those counted from 1970.  A
  non-positive \<open>d\<close> returns \<open>t\<close> unchanged.
\<close>

definition Truncate :: "int \<Rightarrow> int \<Rightarrow> int" where
  "Truncate t d = (if d \<le> 0 then t else t - t mod d)"

text \<open>
  \<open>t.Sub(u)\<close> is the duration \<open>t - u\<close>, clamped to the largest and the smallest
  duration when the difference does not fit.
\<close>

definition Sub :: "int \<Rightarrow> int \<Rightarrow> int" where
  "Sub t u = (let d = t - u in
     if d > maxDuration then maxDuration
     else if d < minDuration then minDuration
     else d)"

text \<open>
  \<open>time.Date(now.Year(), now.Month(), now.Day() + days, hours, 0, 0, 0, now.Location())\<close>
  where \<open>now\<close> is in UTC: the day and the hour are normalised by \<open>time.Date\<close>, and a UTC
  day has 24 hours, so the instant is midnight of \<open>now\<close>'s date moved by \<open>days\<close> days and
  \<open>hours\<close> hours.
\<close>

definition Date :: "int \<Rightarrow> int \<Rightarrow> int \<Rightarrow> int" where
  "Date now days hours = Truncate now (24 * Hour) + days * (24 * Hour) + hours * Hour"

text \<open>Go's integer division truncates towards zero.\<close>

definition quot :: "int \<Rightarrow> int \<Rightarrow> int" where
  "quot a b = sgn a * sgn b * (\<bar>a\<bar> div \<bar>b\<bar>)"

text \<open>
  \<open>int(d.Hours() / 24)\<close>: the duration in hours as a float, divided by 24, converted to
  an integer by dropping the fraction.  Every duration the collector passes here is a
  whole number of hours or one of the two clamped values of \<open>Sub\<close>; on those the
  floating-point quotient has the integer part of the exact quotient.
\<close>

definition Hours_div_24 :: "int \<Rightarrow> int" where
  "Hours_div_24 d = quot d (24 * Hour)"

text \<open>
  Modelled from the spec: the errors of the store (section 7) and the store itself
  (section 4.1).  The store is outside the collector, so its two operations are
  parameters: \<open>List\<close> reads a store state, \<open>Delete\<close> takes a snapshot and a store state and
  returns an optional error with the next store state.
\<close>

datatype StoreError = Transient | Permanent | NotFound

datatype level = Info | Warn

datatype mode = MNone | MHour | MDay | MWeek | MMonth

datatype logmsg =
  Executing
  | FailedToList StoreError
  | SwitchingTo mode int
  | DeletingFull snapshot
  | DeletingDelta snapshot
  | FailedToDelete snapshot StoreError

text \<open>
  The world of one collection pass: the state of the store, the \<open>Delete\<close> calls issued so
  far with the result of each, oldest call first, and the lines written to the logger.
\<close>

record 's world =
  store :: 's
  calls :: "(snapshot \<times> StoreError option) list"
  logs :: "(level \<times> logmsg) list"

type_synonym 's delete_op = "snapshot \<Rightarrow> 's \<Rightarrow> StoreError option \<times> 's"

definition logf :: "level \<Rightarrow> logmsg \<Rightarrow> 's world \<Rightarrow> 's world" where
  "logf lv m w = w\<lparr>logs := logs w @ [(lv, m)]\<rparr>"

definition Delete :: "'s delete_op \<Rightarrow> snapshot \<Rightarrow> 's world \<Rightarrow> StoreError option \<times> 's world" where
  "Delete del snap w = (case del snap (store w) of
     (r, s') \<Rightarrow> (r, w\<lparr>store := s', calls := calls w @ [(snap, r)]\<rparr>))"

section \<open>The delta sweeper\<close>

text \<open>
  \<open>garbageCollectDeltaSnapshots\<close>: the loop \<open>for i := len(snapStream) - 1; i > 0; i--\<close>,
  with \<open>i\<close> the numeric argument of \<open>sweep\<close>.
\<close>

fun sweep :: "'s delete_op \<Rightarrow> snapshot list \<Rightarrow> nat \<Rightarrow> 's world \<Rightarrow> StoreError option \<times> 's world" where
  "sweep del snapStream 0 w = (None, w)"
| "sweep del snapStream (Suc i) w =
    (let w1 = logf Info (DeletingDelta (snapStream ! Suc i)) w in
     case Delete del (snapStream ! Suc i) w1 of
       (Some err, w2) \<Rightarrow> (Some err, logf Warn (FailedToDelete (snapStream ! Suc i) err) w2)
     | (None, w2) \<Rightarrow> sweep del snapStream i w2)"

definition garbageCollectDeltaSnapshots ::
  "'s delete_op \<Rightarrow> snapshot list \<Rightarrow> 's world \<Rightarrow> StoreError option \<times> 's world" where
  "garbageCollectDeltaSnapshots del snapStream w = sweep del snapStream (length snapStream - 1) w"

section \<open>The stream partitioner\<close>

text \<open>
  \<open>snapStreamIndexList\<close>: index 0 is appended first, whatever the list holds, then every
  index from 1 on whose snapshot is a full one.
\<close>

definition snapStreamIndexList :: "snapshot list \<Rightarrow> nat list" where
  "snapStreamIndexList snapList =
     0 # filter (\<lambda>index. Kind (snapList ! index) = Full) [1 ..< length snapList]"

text \<open>The slice \<open>snapList[a:b]\<close>.\<close>

definition slice :: "'a list \<Rightarrow> nat \<Rightarrow> nat \<Rightarrow> 'a list" where
  "slice xs a b = take (b - a) (drop a xs)"

section \<open>The exponential policy\<close>

record gc =
  deleteSnap :: bool
  backupMode :: mode
  backupCount :: int

definition hourModeLimit :: int where
  "hourModeLimit = 24"

definition dayModeLimit :: int where
  "dayModeLimit = 7"

definition weekModeLimit :: int where
  "weekModeLimit = 4"

definition init_gc :: gc where
  "init_gc = \<lparr>deleteSnap = True, backupMode = MNone, backupCount = -1\<rparr>"

text \<open>
  Each \<open>case\<close> of the \<open>switch\<close> on \<open>backupMode\<close> returns the next values of the three
  variables and the lines it logs.  A \<open>fallthrough\<close> is a call of the next case.
\<close>

definition month_case :: "gc \<Rightarrow> gc \<times> (level \<times> logmsg) list" where
  "month_case g = (g\<lparr>deleteSnap := True\<rparr>, [])"

function week_loop :: "int \<Rightarrow> snapshot \<Rightarrow> gc \<Rightarrow> gc \<times> (level \<times> logmsg) list" where
  "week_loop now snap g =
    (if backupCount g \<ge> 0 then
       (let rounded = Date now (- dayModeLimit - 7 * (weekModeLimit - backupCount g)) 0;
            diff = quot (Hours_div_24 (Sub rounded (Truncate (CreatedOn snap) Hour))) 7 in
        if diff = 0 then
          (let g1 = g\<lparr>deleteSnap := False, backupCount := backupCount g - 1\<rparr> in
           if backupCount g1 = -1
           then (g1\<lparr>backupMode := MMonth\<rparr>, [(Info, SwitchingTo MMonth (CreatedOn snap))])
           else (g1, []))
        else if diff > 0 then week_loop now snap (g\<lparr>backupCount := backupCount g - 1\<rparr>)
        else (g\<lparr>deleteSnap := True\<rparr>, []))
     else (g, []))"
  by pat_completeness auto
termination
  by (relation "measure (\<lambda>(now, snap, g). nat (backupCount g + 1))") auto

definition week_case :: "int \<Rightarrow> snapshot \<Rightarrow> gc \<Rightarrow> gc \<times> (level \<times> logmsg) list" where
  "week_case now snap g = (case week_loop now snap g of
     (g1, l1) \<Rightarrow>
       if backupCount g1 \<ge> 0 then (g1, l1)
       else if backupMode g1 = MMonth then (g1, l1)
       else (case month_case (g1\<lparr>backupMode := MMonth\<rparr>) of
         (g2, l2) \<Rightarrow> (g2, l1 @ [(Info, SwitchingTo MMonth (CreatedOn snap))] @ l2)))"

function day_loop :: "int \<Rightarrow> snapshot \<Rightarrow> gc \<Rightarrow> gc \<times> (level \<times> logmsg) list" where
  "day_loop now snap g =
    (if backupCount g \<ge> 0 then
       (let rounded = Date now (- 7 + backupCount g) 0;
            diff = Sub rounded (Truncate (CreatedOn snap) (Hour * 24)) in
        if diff = 0 then
          (let g1 = g\<lparr>deleteSnap := False, backupCount := backupCount g - 1\<rparr> in
           if backupCount g1 = -1
           then (g1\<lparr>backupMode := MWeek, backupCount := weekModeLimit - 1\<rparr>,
                 [(Info, SwitchingTo MWeek (CreatedOn snap))])
           else (g1, []))
        else if diff > 0 then day_loop now snap (g\<lparr>backupCount := backupCount g - 1\<rparr>)
        else (g\<lparr>deleteSnap := True\<rparr>, []))
     else (g, []))"
  by pat_completeness auto
termination
  by (relation "measure (\<lambda>(now, snap, g). nat (backupCount g + 1))") auto

definition day_case :: "int \<Rightarrow> snapshot \<Rightarrow> gc \<Rightarrow> gc \<times> (level \<times> logmsg) list" where
  "day_case now snap g = (case day_loop now snap g of
     (g1, l1) \<Rightarrow>
       if backupCount g1 \<ge> 0 then (g1, l1)
       else if backupMode g1 = MWeek then (g1, l1)
       else (case week_case now snap (g1\<lparr>backupMode := MWeek, backupCount := weekModeLimit - 1\<rparr>) of
         (g2, l2) \<Rightarrow> (g2, l1 @ [(Info, SwitchingTo MWeek (CreatedOn snap))] @ l2)))"

function hour_loop :: "int \<Rightarrow> snapshot \<Rightarrow> gc \<Rightarrow> gc \<times> (level \<times> logmsg) list" where
  "hour_loop now snap g =
    (if backupCount g \<ge> 0 then
       (let rounded = Date now 0 (backupCount g);
            diff = Sub rounded (Truncate (CreatedOn snap) Hour) in
        if diff = 0 then
          (let g1 = g\<lparr>deleteSnap := False, backupCount := backupCount g - 1\<rparr> in
           if backupCount g1 = -1
           then (g1\<lparr>backupMode := MDay, backupCount := dayModeLimit - 1\<rparr>,
                 [(Info, SwitchingTo MDay (CreatedOn snap))])
           else (g1, []))
        else if diff > 0 then hour_loop now snap (g\<lparr>backupCount := backupCount g - 1\<rparr>)
        else (g\<lparr>deleteSnap := True\<rparr>, []))
     else (g, []))"
  by pat_completeness auto
termination
  by (relation "measure (\<lambda>(now, snap, g). nat (backupCount g + 1))") auto

definition hour_case :: "int \<Rightarrow> snapshot \<Rightarrow> gc \<Rightarrow> gc \<times> (level \<times> logmsg) list" where
  "hour_case now snap g = (case hour_loop now snap g of
     (g1, l1) \<Rightarrow>
       if backupCount g1 \<ge> 0 then (g1, l1)
       else if backupMode g1 = MDay then (g1, l1)
       else (case day_case now snap (g1\<lparr>backupMode := MDay, backupCount := dayModeLimit - 1\<rparr>) of
         (g2, l2) \<Rightarrow> (g2, l1 @ [(Info, SwitchingTo MDay (CreatedOn snap))] @ l2)))"

definition none_case :: "int \<Rightarrow> snapshot \<Rightarrow> gc \<Rightarrow> gc \<times> (level \<times> logmsg) list" where
  "none_case now snap g =
    (let g1 = g\<lparr>deleteSnap := False\<rparr> in
     if Truncate now Hour = Truncate (CreatedOn snap) Hour then (g1, [])
     else (case hour_case now snap (g1\<lparr>backupMode := MHour, backupCount := hourModeLimit - 1\<rparr>) of
       (g2, l2) \<Rightarrow> (g2, (Info, SwitchingTo MHour (CreatedOn snap)) # l2)))"

text \<open>The \<open>switch backupMode\<close> statement.\<close>

definition mode_switch :: "int \<Rightarrow> snapshot \<Rightarrow> gc \<Rightarrow> gc \<times> (level \<times> logmsg) list" where
  "mode_switch now snap g = (case backupMode g of
     MNone \<Rightarrow> none_case now snap g
   | MHour \<Rightarrow> hour_case now snap g
   | MDay \<Rightarrow> day_case now snap g
   | MWeek \<Rightarrow> week_case now snap g
   | MMonth \<Rightarrow> month_case g)"

text \<open>
  The body of the loop over the streams, for the stream at position \<open>snapStreamIndex\<close> of
  the index list, and the loop itself, which counts \<open>snapStreamIndex\<close> down from
  \<open>len(snapStreamIndexList) - 2\<close> to 0: \<open>exp_loop\<close> at \<open>Suc i\<close> runs the body at \<open>i\<close>.
\<close>

fun exp_body :: "'s delete_op \<Rightarrow> int \<Rightarrow> snapshot list \<Rightarrow> nat list \<Rightarrow> nat \<Rightarrow>
    gc \<times> 's world \<Rightarrow> gc \<times> 's world" where
  "exp_body del now snapList idx snapStreamIndex (g, w) =
    (let snap = snapList ! (idx ! snapStreamIndex) in
     case garbageCollectDeltaSnapshots del
            (slice snapList (idx ! snapStreamIndex) (idx ! (snapStreamIndex + 1))) w of
       (Some err, w1) \<Rightarrow> (g, w1)
     | (None, w1) \<Rightarrow>
         (case mode_switch now snap g of
            (g1, msgs) \<Rightarrow>
              (let w2 = w1\<lparr>logs := logs w1 @ msgs\<rparr> in
               if deleteSnap g1 then
                 (let w3 = logf Info (DeletingFull snap) w2 in
                  case Delete del snap w3 of
                    (Some err, w4) \<Rightarrow> (g1, logf Warn (FailedToDelete snap err) w4)
                  | (None, w4) \<Rightarrow> (g1, w4))
               else (g1, w2))))"

fun exp_loop :: "'s delete_op \<Rightarrow> int \<Rightarrow> snapshot list \<Rightarrow> nat list \<Rightarrow> nat \<Rightarrow>
    gc \<times> 's world \<Rightarrow> gc \<times> 's world" where
  "exp_loop del now snapList idx 0 gw = gw"
| "exp_loop del now snapList idx (Suc i) gw =
     exp_loop del now snapList idx i (exp_body del now snapList idx i gw)"

section \<open>The limit-based policy\<close>

text \<open>Go's \<open>int\<close> has 64 bits; a difference that does not fit wraps around.\<close>

definition wrap64 :: "int \<Rightarrow> int" where
  "wrap64 x = (x + 2 ^ 63) mod 2 ^ 64 - 2 ^ 63"

definition limit_body :: "'s delete_op \<Rightarrow> int \<Rightarrow> snapshot list \<Rightarrow> nat list \<Rightarrow> nat \<Rightarrow>
    's world \<Rightarrow> 's world" where
  "limit_body del maxBackups snapList idx snapStreamIndex w =
    (case garbageCollectDeltaSnapshots del
            (slice snapList (idx ! snapStreamIndex) (idx ! (snapStreamIndex + 1))) w of
       (Some err, w1) \<Rightarrow> w1
     | (None, w1) \<Rightarrow>
         if int snapStreamIndex < wrap64 (int (length idx) - maxBackups) then
           (let snap = snapList ! (idx ! snapStreamIndex);
                w2 = logf Info (DeletingFull snap) w1 in
            case Delete del snap w2 of
              (Some err, w3) \<Rightarrow> logf Warn (FailedToDelete snap err) w3
            | (None, w3) \<Rightarrow> w3)
         else w1)"

function limit_loop :: "'s delete_op \<Rightarrow> int \<Rightarrow> snapshot list \<Rightarrow> nat list \<Rightarrow> nat \<Rightarrow>
    's world \<Rightarrow> 's world" where
  "limit_loop del maxBackups snapList idx snapStreamIndex w =
    (if snapStreamIndex < length idx - 1
     then limit_loop del maxBackups snapList idx (snapStreamIndex + 1)
            (limit_body del maxBackups snapList idx snapStreamIndex w)
     else w)"
  by pat_completeness auto
termination
  by (relation "measure (\<lambda>(del, maxBackups, snapList, idx, i, w). length idx - 1 - i)") auto

section \<open>One pass of the collector\<close>

text \<open>
  Modelled from the spec: the two policy identifiers (section 6) and the fields of the
  \<open>Snapshotter\<close> that the collector reads.
\<close>

definition GarbageCollectionPolicyExponential :: string where
  "GarbageCollectionPolicyExponential = ''Exponential''"

definition GarbageCollectionPolicyLimitBased :: string where
  "GarbageCollectionPolicyLimitBased = ''LimitBased''"

record 's Snapshotter =
  store_List :: "'s \<Rightarrow> StoreError + snapshot list"
  store_Delete :: "'s delete_op"
  garbageCollectionPolicy :: string
  maxBackups :: int

text \<open>
  \<open>tick\<close> is the branch of the \<open>select\<close> taken when the period has elapsed; \<open>now\<close> is the
  value of \<open>time.Now().UTC()\<close>.
\<close>

definition tick :: "'s Snapshotter \<Rightarrow> int \<Rightarrow> 's world \<Rightarrow> 's world" where
  "tick ssr now w =
    (let w0 = logf Info Executing w in
     case store_List ssr (store w0) of
       Inl err \<Rightarrow> logf Warn (FailedToList err) w0
     | Inr snapList \<Rightarrow>
         (let idx = snapStreamIndexList snapList in
          if garbageCollectionPolicy ssr = GarbageCollectionPolicyExponential then
            snd (exp_loop (store_Delete ssr) now snapList idx (length idx - 1) (init_gc, w0))
          else if garbageCollectionPolicy ssr = GarbageCollectionPolicyLimitBased then
            limit_loop (store_Delete ssr) (maxBackups ssr) snapList idx 0 w0
          else w0))"

section \<open>Specification functions\<close>

text \<open>
  The store state reached from \<open>s\<close> by the \<open>Delete\<close> calls for the snapshots \<open>ss\<close>, in this
  order, and nothing else.
\<close>

definition run_deletes :: "'s delete_op \<Rightarrow> snapshot list \<Rightarrow> 's \<Rightarrow> 's" where
  "run_deletes del ss s = fold (\<lambda>snap s'. snd (del snap s')) ss s"

text \<open>The \<open>Delete\<close> calls issued between the worlds \<open>w\<close> and \<open>w'\<close>, with their results.\<close>

definition new_calls :: "'s world \<Rightarrow> 's world \<Rightarrow> (snapshot \<times> StoreError option) list" where
  "new_calls w w' = drop (length (calls w)) (calls w')"

definition week_diff :: "int \<Rightarrow> int \<Rightarrow> int" where
  "week_diff a b = quot (Hours_div_24 (Sub a b)) 7"

definition hour_of :: "snapshot \<Rightarrow> int" where
  "hour_of snap = Truncate (CreatedOn snap) Hour"

definition day_of :: "snapshot \<Rightarrow> int" where
  "day_of snap = Truncate (CreatedOn snap) (Hour * 24)"

definition next_gc :: "int \<Rightarrow> gc \<Rightarrow> snapshot \<Rightarrow> gc" where
  "next_gc now g snap = fst (mode_switch now snap g)"

datatype bucket = HourBucket int | DayBucket int

fun in_bucket :: "int \<Rightarrow> bucket \<Rightarrow> snapshot \<Rightarrow> bool" where
  "in_bucket now (HourBucket h) snap \<longleftrightarrow> 0 \<le> h \<and> h \<le> 23 \<and> hour_of snap = Date now 0 h"
| "in_bucket now (DayBucket k) snap \<longleftrightarrow> 1 \<le> k \<and> k \<le> 7 \<and> day_of snap = Date now (- k) 0"

fun closed :: "bucket \<Rightarrow> gc \<Rightarrow> bool" where
  "closed (HourBucket h) g =
     (case backupMode g of MNone \<Rightarrow> False | MHour \<Rightarrow> backupCount g < h | _ \<Rightarrow> True)"
| "closed (DayBucket k) g =
     (case backupMode g of MNone \<Rightarrow> False | MHour \<Rightarrow> False | MDay \<Rightarrow> backupCount g < 7 - k
      | _ \<Rightarrow> True)"

definition valid_gc :: "gc \<Rightarrow> bool" where
  "valid_gc g = (case backupMode g of
      MHour \<Rightarrow> 0 \<le> backupCount g \<and> backupCount g \<le> 23
    | MDay \<Rightarrow> 0 \<le> backupCount g \<and> backupCount g \<le> 6
    | MWeek \<Rightarrow> 0 \<le> backupCount g \<and> backupCount g \<le> 3
    | _ \<Rightarrow> True)"

fun rank :: "mode \<Rightarrow> nat" where
  "rank MNone = 0" | "rank MHour = 1" | "rank MDay = 2" | "rank MWeek = 3" | "rank MMonth = 4"

definition capacity :: "gc \<Rightarrow> int" where
  "capacity g = (case backupMode g of
      MNone \<Rightarrow> 35
    | MHour \<Rightarrow> backupCount g + 12
    | MDay \<Rightarrow> backupCount g + 5
    | MWeek \<Rightarrow> backupCount g + 1
    | MMonth \<Rightarrow> 0)"

definition succeeded :: "snapshot list \<Rightarrow> (snapshot \<times> StoreError option) list" where
  "succeeded ss = map (\<lambda>s. (s, None)) ss"

definition always_succeeds :: "'s delete_op \<Rightarrow> bool" where
  "always_succeeds del \<longleftrightarrow> (\<forall>snap s. fst (del snap s) = None)"

definition stream_head :: "snapshot list \<Rightarrow> nat \<Rightarrow> snapshot" where
  "stream_head snapList j = snapList ! (snapStreamIndexList snapList ! j)"

definition stream_deltas :: "snapshot list \<Rightarrow> nat \<Rightarrow> snapshot list" where
  "stream_deltas snapList j =
     tl (slice snapList (snapStreamIndexList snapList ! j) (snapStreamIndexList snapList ! (j + 1)))"

definition stream_set :: "snapshot list \<Rightarrow> nat \<Rightarrow> snapshot set" where
  "stream_set snapList j =
     nth snapList ` {snapStreamIndexList snapList ! j ..< snapStreamIndexList snapList ! Suc j}"

section \<open>A store for concrete runs\<close>

text \<open>
  A store that holds a list of snapshots.  Deleting a snapshot of \<open>bad\<close> fails and leaves
  the store as it is, deleting a snapshot that is not there fails too, and every other
  delete removes the snapshot.
\<close>

definition flaky_Delete :: "snapshot list \<Rightarrow> snapshot list delete_op" where
  "flaky_Delete bad snap s =
     (if snap \<in> set bad then (Some Transient, s)
      else if snap \<in> set s then (None, removeAll snap s)
      else (Some NotFound, s))"

definition minutes :: "int \<Rightarrow> int" where
  "minutes m = m * 60000000000"

definition snap_at :: "kind \<Rightarrow> int \<Rightarrow> snapshot" where
  "snap_at k m = \<lparr>Kind = k, CreatedOn = minutes m, SnapDir = ''v1'',
     SnapName = (if k = Full then ''Full'' else ''Incr'')\<rparr>"

definition world_of :: "snapshot list \<Rightarrow> snapshot list world" where
  "world_of s = \<lparr>store = s, calls = [], logs = []\<rparr>"

definition stream1 :: "snapshot list" where
  "stream1 = [snap_at Full 500, snap_at Delta 510, snap_at Delta 520, snap_at Delta 530]"

section \<open>Basic facts\<close>

lemma run_deletes_Nil [simp]: "run_deletes del [] s = s"
  by (simp add: run_deletes_def)

lemma run_deletes_Cons [simp]: "run_deletes del (x # xs) s = run_deletes del xs (snd (del x s))"
  by (simp add: run_deletes_def)

lemma Delete_eq:
  "Delete del snap w = (fst (del snap (store w)),
     w\<lparr>store := snd (del snap (store w)), calls := calls w @ [(snap, fst (del snap (store w)))]\<rparr>)"
  by (simp add: Delete_def split: prod.split)

lemma logf_simps [simp]:
  "store (logf lv m w) = store w" "calls (logf lv m w) = calls w"
  "logs (logf lv m w) = logs w @ [(lv, m)]"
  by (simp_all add: logf_def)

section \<open>The delta sweeper: trace of one sweep\<close>

lemma sweep_trace:
  "i \<le> length (tl ss) \<Longrightarrow> sweep del ss i w = (r, w') \<Longrightarrow>
    (r = None \<and> calls w' = calls w @ map (\<lambda>s. (s, None)) (rev (take i (tl ss)))
       \<and> store w' = run_deletes del (rev (take i (tl ss))) (store w))
    \<or> (\<exists>k e. r = Some e \<and> k < i
       \<and> calls w' = calls w @ map (\<lambda>s. (s, None)) (take k (rev (take i (tl ss))))
                       @ [(rev (take i (tl ss)) ! k, Some e)]
       \<and> fst (del (rev (take i (tl ss)) ! k)
                (run_deletes del (take k (rev (take i (tl ss)))) (store w))) = Some e
       \<and> store w' = run_deletes del (take (Suc k) (rev (take i (tl ss)))) (store w))"
proof (induction i arbitrary: w r w')
  case 0
  then show ?case by simp
next
  case (Suc i)
  let ?x = "ss ! Suc i"
  let ?ds = "rev (take (Suc i) (tl ss))"
  have len: "i < length (tl ss)" using Suc.prems(1) by simp
  have nth: "tl ss ! i = ?x" using len by (simp add: nth_tl)
  have tk: "?ds = ?x # rev (take i (tl ss))"
    using len nth by (simp add: take_Suc_conv_app_nth)
  let ?w1 = "logf Info (DeletingDelta ?x) w"
  obtain r1 s1 where d: "del ?x (store w) = (r1, s1)" by (cases "del ?x (store w)")
  let ?w2 = "?w1\<lparr>store := s1, calls := calls w @ [(?x, r1)]\<rparr>"
  have D: "Delete del ?x ?w1 = (r1, ?w2)" using d by (simp add: Delete_eq)
  show ?case
  proof (cases r1)
    case (Some e)
    with Suc.prems(2) D have r: "r = Some e" and w': "w' = logf Warn (FailedToDelete ?x e) ?w2"
      by (auto simp: Let_def)
    have "\<exists>k e. r = Some e \<and> k < Suc i
       \<and> calls w' = calls w @ map (\<lambda>s. (s, None)) (take k ?ds) @ [(?ds ! k, Some e)]
       \<and> fst (del (?ds ! k) (run_deletes del (take k ?ds) (store w))) = Some e
       \<and> store w' = run_deletes del (take (Suc k) ?ds) (store w)"
      apply (rule exI [of _ 0], rule exI [of _ e])
      using r w' d Some by (simp add: tk)
    then show ?thesis by blast
  next
    case None
    with Suc.prems(2) D have sw: "sweep del ss i ?w2 = (r, w')"
      by (auto simp: Let_def)
    have le: "i \<le> length (tl ss)" using len by simp
    from Suc.IH [OF le sw] show ?thesis
    proof (elim disjE exE conjE)
      assume "r = None" "calls w' = calls ?w2 @ map (\<lambda>s. (s, None)) (rev (take i (tl ss)))"
        "store w' = run_deletes del (rev (take i (tl ss))) (store ?w2)"
      then show ?thesis using d None by (simp add: tk)
    next
      fix k e
      assume a: "r = Some e" "k < i"
        "calls w' = calls ?w2 @ map (\<lambda>s. (s, None)) (take k (rev (take i (tl ss))))
                       @ [(rev (take i (tl ss)) ! k, Some e)]"
        "fst (del (rev (take i (tl ss)) ! k)
               (run_deletes del (take k (rev (take i (tl ss)))) (store ?w2))) = Some e"
        "store w' = run_deletes del (take (Suc k) (rev (take i (tl ss)))) (store ?w2)"
      have "\<exists>k e. r = Some e \<and> k < Suc i
       \<and> calls w' = calls w @ map (\<lambda>s. (s, None)) (take k ?ds) @ [(?ds ! k, Some e)]
       \<and> fst (del (?ds ! k) (run_deletes del (take k ?ds) (store w))) = Some e
       \<and> store w' = run_deletes del (take (Suc k) ?ds) (store w)"
        apply (rule exI [of _ "Suc k"], rule exI [of _ e])
        using a d None by (simp add: tk)
      then show ?thesis by blast
    qed
  qed
qed

section \<open>Time, the three loops and the buckets\<close>

lemma Sub_eq_0 [simp]: "Sub a b = 0 \<longleftrightarrow> a = b"
  by (auto simp: Sub_def Let_def maxDuration_def minDuration_def)

lemma Sub_pos [simp]: "0 < Sub a b \<longleftrightarrow> b < a"
  by (auto simp: Sub_def Let_def maxDuration_def minDuration_def)

lemma quot_pos: "0 \<le> a \<Longrightarrow> 0 < b \<Longrightarrow> quot a b = a div b"
  by (cases "a = 0") (simp_all add: quot_def)

lemma quot_neg: "a < 0 \<Longrightarrow> 0 < b \<Longrightarrow> quot a b = - ((- a) div b)"
  by (simp add: quot_def)

lemma week_span: "7 * (24 * Hour) = 604800000000000"
  by (simp add: Hour_def)

lemma quot_quot_nonneg: "0 \<le> d \<Longrightarrow> quot (quot d (24 * Hour)) 7 = d div 604800000000000"
proof -
  assume d: "0 \<le> d"
  have 1: "quot d (24 * Hour) = d div (24 * Hour)" using d by (intro quot_pos) (simp_all add: Hour_def)
  have 2: "0 \<le> d div (24 * Hour)" using d by (simp add: Hour_def pos_imp_zdiv_nonneg_iff)
  have "quot (d div (24 * Hour)) 7 = d div (24 * Hour) div 7" using 2 by (intro quot_pos) simp_all
  also have "\<dots> = d div 604800000000000" by (simp add: Hour_def div_mult2_eq [symmetric])
  finally show ?thesis using 1 by simp
qed

lemma quot_minus: "quot (- a) b = - quot a b"
  by (simp add: quot_def sgn_minus)

lemma quot_quot_neg: "d \<le> 0 \<Longrightarrow> quot (quot d (24 * Hour)) 7 = - ((- d) div 604800000000000)"
  using quot_quot_nonneg [of "- d"] by (simp add: quot_minus)

lemma week_diff_0: "week_diff a b = 0 \<longleftrightarrow> \<bar>a - b\<bar> < 604800000000000"
  unfolding week_diff_def Hours_div_24_def
proof (cases "0 \<le> Sub a b")
  case True
  then have ab: "b \<le> a" by (auto simp: Sub_def Let_def maxDuration_def minDuration_def split: if_splits)
  show "quot (quot (Sub a b) (24 * Hour)) 7 = 0 \<longleftrightarrow> \<bar>a - b\<bar> < 604800000000000"
    using True ab by (simp add: quot_quot_nonneg div_eq_0_iff) (auto simp: Sub_def Let_def maxDuration_def minDuration_def)
next
  case False
  then have ab: "a < b" by (auto simp: Sub_def Let_def maxDuration_def minDuration_def split: if_splits)
  show "quot (quot (Sub a b) (24 * Hour)) 7 = 0 \<longleftrightarrow> \<bar>a - b\<bar> < 604800000000000"
    using False ab by (simp add: quot_quot_neg div_eq_0_iff) (auto simp: Sub_def Let_def maxDuration_def minDuration_def)
qed

lemma week_diff_pos: "0 < week_diff a b \<longleftrightarrow> 604800000000000 \<le> a - b"
  unfolding week_diff_def Hours_div_24_def
proof (cases "0 \<le> Sub a b")
  case True
  then have ab: "b \<le> a" by (auto simp: Sub_def Let_def maxDuration_def minDuration_def split: if_splits)
  show "0 < quot (quot (Sub a b) (24 * Hour)) 7 \<longleftrightarrow> 604800000000000 \<le> a - b"
    using True ab by (simp add: quot_quot_nonneg pos_imp_zdiv_pos_iff) (auto simp: Sub_def Let_def maxDuration_def minDuration_def)
next
  case False
  then have ab: "a < b" by (auto simp: Sub_def Let_def maxDuration_def minDuration_def split: if_splits)
  have "0 \<le> (- Sub a b) div 604800000000000" using False by (simp add: pos_imp_zdiv_nonneg_iff)
  then show "0 < quot (quot (Sub a b) (24 * Hour)) 7 \<longleftrightarrow> 604800000000000 \<le> a - b"
    using False ab by (simp add: quot_quot_neg)
qed

declare hour_loop.simps [simp del] day_loop.simps [simp del] week_loop.simps [simp del]
  limit_loop.simps [simp del]

lemma Truncate_Hour: "Truncate t Hour = t - t mod 3600000000000"
  by (simp add: Truncate_def Hour_def)

lemma Truncate_Day: "Truncate t (24 * Hour) = t - t mod 86400000000000"
  by (simp add: Truncate_def Hour_def)

lemma Date_eq: "Date now d h = now - now mod 86400000000000 + d * 86400000000000 + h * 3600000000000"
  by (simp add: Date_def Truncate_Day) (simp add: Hour_def)

lemma hour_of_eq: "hour_of s = CreatedOn s - CreatedOn s mod 3600000000000"
  by (simp add: hour_of_def Truncate_Hour)

lemma day_of_eq: "day_of s = CreatedOn s - CreatedOn s mod 86400000000000"
  by (simp add: day_of_def Truncate_def Hour_def)

lemma hour_dvd: "3600000000000 dvd hour_of s"
  unfolding hour_of_eq by (rule dvd_minus_mod)

lemma day_dvd: "86400000000000 dvd day_of s"
  unfolding day_of_eq by (rule dvd_minus_mod)

lemma Date_hour_dvd: "3600000000000 dvd Date now d h"
proof -
  have "(86400000000000::int) = 3600000000000 * 24" by simp
  then have "(3600000000000::int) dvd 86400000000000" by (metis dvd_triv_left)
  moreover have "(86400000000000::int) dvd now - now mod 86400000000000" by (rule dvd_minus_mod)
  ultimately have "(3600000000000::int) dvd now - now mod 86400000000000" by (rule dvd_trans)
  then show ?thesis unfolding Date_eq by (intro dvd_add) (simp_all add: dvd_mult)
qed

lemma Date_day_dvd: "86400000000000 dvd Date now d 0"
  unfolding Date_eq by (intro dvd_add dvd_minus_mod) simp_all

lemma aligned_lt: "(k::int) dvd a \<Longrightarrow> k dvd b \<Longrightarrow> 0 < k \<Longrightarrow> a < b \<Longrightarrow> a + k \<le> b"
proof -
  assume "k dvd a" "k dvd b" "0 < k" "a < b"
  then obtain x y where "a = k * x" "b = k * y" by (auto simp: dvd_def)
  with \<open>a < b\<close> \<open>0 < k\<close> have "x < y" by (simp add: mult_less_cancel_left_pos)
  then have "x + 1 \<le> y" by simp
  then have "k * (x + 1) \<le> k * y" using \<open>0 < k\<close> by (simp add: mult_le_cancel_left_pos)
  then show ?thesis using \<open>a = k * x\<close> \<open>b = k * y\<close> by (simp add: algebra_simps)
qed

lemma hour_of_mono: "CreatedOn y \<le> CreatedOn x \<Longrightarrow> hour_of y \<le> hour_of x"
proof -
  assume "CreatedOn y \<le> CreatedOn x"
  then have "CreatedOn y div 3600000000000 \<le> CreatedOn x div 3600000000000" by (simp add: zdiv_mono1)
  moreover have "hour_of s = 3600000000000 * (CreatedOn s div 3600000000000)" for s
    by (simp add: hour_of_eq minus_mod_eq_mult_div)
  ultimately show ?thesis by simp
qed

lemma day_of_mono: "CreatedOn y \<le> CreatedOn x \<Longrightarrow> day_of y \<le> day_of x"
proof -
  assume "CreatedOn y \<le> CreatedOn x"
  then have "CreatedOn y div 86400000000000 \<le> CreatedOn x div 86400000000000" by (simp add: zdiv_mono1)
  moreover have "day_of s = 86400000000000 * (CreatedOn s div 86400000000000)" for s
    by (simp add: day_of_eq minus_mod_eq_mult_div)
  ultimately show ?thesis by simp
qed

lemma day_of_hour_of: "day_of s \<le> hour_of s \<and> hour_of s < day_of s + 86400000000000"
proof -
  let ?t = "CreatedOn s"
  have a: "hour_of s \<le> ?t" "?t < hour_of s + 3600000000000" by (simp_all add: hour_of_eq)
  have b: "day_of s \<le> ?t" "?t < day_of s + 86400000000000" by (simp_all add: day_of_eq)
  have "(86400000000000::int) = 3600000000000 * 24" by simp
  then have "(3600000000000::int) dvd 86400000000000" by (metis dvd_triv_left)
  then have d: "3600000000000 dvd day_of s" using day_dvd [of s] by (rule dvd_trans)
  have "day_of s \<le> hour_of s"
  proof (rule ccontr)
    assume "\<not> day_of s \<le> hour_of s"
    then have "hour_of s + 3600000000000 \<le> day_of s" using aligned_lt [OF hour_dvd d] by simp
    with a b show False by simp
  qed
  with a b show ?thesis by simp
qed

lemma hour_loop_newer:
  "0 \<le> backupCount g \<Longrightarrow> Date now 0 (backupCount g) < hour_of x \<Longrightarrow>
   hour_loop now x g = (g\<lparr>deleteSnap := True\<rparr>, [])"
  by (subst hour_loop.simps) (simp add: Let_def hour_of_def)

lemma hour_loop_older:
  "hour_of x < Date now 0 0 \<Longrightarrow> - 1 \<le> backupCount g \<Longrightarrow>
   hour_loop now x g = (g\<lparr>backupCount := - 1\<rparr>, [])"
proof (induction "nat (backupCount g + 1)" arbitrary: g)
  case 0
  then have "backupCount g = - 1" by simp
  then show ?case by (subst hour_loop.simps) simp
next
  case (Suc n)
  then have c: "0 \<le> backupCount g" by simp
  have lt: "hour_of x < Date now 0 (backupCount g)" using c Suc.prems(1) by (simp add: Date_eq)
  have "hour_loop now x g = hour_loop now x (g\<lparr>backupCount := backupCount g - 1\<rparr>)"
    using c lt by (subst hour_loop.simps) (simp add: Let_def hour_of_def)
  also have "\<dots> = (g\<lparr>backupCount := backupCount g - 1\<rparr>\<lparr>backupCount := - 1\<rparr>, [])"
    using Suc.hyps(2) Suc.prems c by (intro Suc.hyps(1)) simp_all
  finally show ?case by simp
qed

lemma hour_loop_match:
  "0 \<le> c \<Longrightarrow> c \<le> backupCount g \<Longrightarrow> hour_of x = Date now 0 c \<Longrightarrow>
   fst (hour_loop now x g) =
     (if c = 0 then \<lparr>deleteSnap = False, backupMode = MDay, backupCount = 6\<rparr>
      else \<lparr>deleteSnap = False, backupMode = backupMode g, backupCount = c - 1\<rparr>)"
proof (induction "nat (backupCount g - c)" arbitrary: g)
  case 0
  then have eq: "backupCount g = c" by simp
  show ?case using 0 eq
    by (subst hour_loop.simps) (simp add: Let_def hour_of_def dayModeLimit_def)
next
  case (Suc n)
  then have c: "c < backupCount g" by simp
  have lt: "hour_of x < Date now 0 (backupCount g)" using c Suc.prems by (simp add: Date_eq)
  have "hour_loop now x g = hour_loop now x (g\<lparr>backupCount := backupCount g - 1\<rparr>)"
    using c lt Suc.prems by (subst hour_loop.simps) (simp add: Let_def hour_of_def)
  moreover have "fst (hour_loop now x (g\<lparr>backupCount := backupCount g - 1\<rparr>)) =
     (if c = 0 then \<lparr>deleteSnap = False, backupMode = MDay, backupCount = 6\<rparr>
      else \<lparr>deleteSnap = False, backupMode = backupMode (g\<lparr>backupCount := backupCount g - 1\<rparr>), backupCount = c - 1\<rparr>)"
    using Suc.hyps(2) Suc.prems c by (intro Suc.hyps(1)) simp_all
  ultimately show ?case by simp
qed

lemma day_loop_newer:
  "0 \<le> backupCount g \<Longrightarrow> Date now (- 7 + backupCount g) 0 < day_of x \<Longrightarrow>
   day_loop now x g = (g\<lparr>deleteSnap := True\<rparr>, [])"
  by (subst day_loop.simps) (simp add: Let_def day_of_def)

lemma day_loop_older:
  "day_of x < Date now (- 7) 0 \<Longrightarrow> - 1 \<le> backupCount g \<Longrightarrow>
   day_loop now x g = (g\<lparr>backupCount := - 1\<rparr>, [])"
proof (induction "nat (backupCount g + 1)" arbitrary: g)
  case 0
  then have "backupCount g = - 1" by simp
  then show ?case by (subst day_loop.simps) simp
next
  case (Suc n)
  then have c: "0 \<le> backupCount g" by simp
  have lt: "day_of x < Date now (- 7 + backupCount g) 0" using c Suc.prems(1) by (simp add: Date_eq)
  have "day_loop now x g = day_loop now x (g\<lparr>backupCount := backupCount g - 1\<rparr>)"
    using c lt by (subst day_loop.simps) (simp add: Let_def day_of_def)
  also have "\<dots> = (g\<lparr>backupCount := backupCount g - 1\<rparr>\<lparr>backupCount := - 1\<rparr>, [])"
    using Suc.hyps(2) Suc.prems c by (intro Suc.hyps(1)) simp_all
  finally show ?case by simp
qed

lemma day_loop_match:
  "0 \<le> c \<Longrightarrow> c \<le> backupCount g \<Longrightarrow> day_of x = Date now (- 7 + c) 0 \<Longrightarrow>
   fst (day_loop now x g) =
     (if c = 0 then \<lparr>deleteSnap = False, backupMode = MWeek, backupCount = 3\<rparr>
      else \<lparr>deleteSnap = False, backupMode = backupMode g, backupCount = c - 1\<rparr>)"
proof (induction "nat (backupCount g - c)" arbitrary: g)
  case 0
  then have eq: "backupCount g = c" by simp
  show ?case using 0 eq
    by (subst day_loop.simps) (simp add: Let_def day_of_def weekModeLimit_def)
next
  case (Suc n)
  then have c: "c < backupCount g" by simp
  have lt: "day_of x < Date now (- 7 + backupCount g) 0" using c Suc.prems by (simp add: Date_eq)
  have "day_loop now x g = day_loop now x (g\<lparr>backupCount := backupCount g - 1\<rparr>)"
    using c lt Suc.prems by (subst day_loop.simps) (simp add: Let_def day_of_def)
  moreover have "fst (day_loop now x (g\<lparr>backupCount := backupCount g - 1\<rparr>)) =
     (if c = 0 then \<lparr>deleteSnap = False, backupMode = MWeek, backupCount = 3\<rparr>
      else \<lparr>deleteSnap = False, backupMode = backupMode (g\<lparr>backupCount := backupCount g - 1\<rparr>), backupCount = c - 1\<rparr>)"
    using Suc.hyps(2) Suc.prems c by (intro Suc.hyps(1)) simp_all
  ultimately show ?case by simp
qed

lemma week_loop_unfold:
  "week_loop now x g =
    (if backupCount g \<ge> 0 then
        if week_diff (Date now (- 7 - 7 * (4 - backupCount g)) 0) (hour_of x) = 0 then
          (if backupCount g = 0
           then (\<lparr>deleteSnap = False, backupMode = MMonth, backupCount = - 1\<rparr>,
                 [(Info, SwitchingTo MMonth (CreatedOn x))])
           else (\<lparr>deleteSnap = False, backupMode = backupMode g, backupCount = backupCount g - 1\<rparr>, []))
        else if 0 < week_diff (Date now (- 7 - 7 * (4 - backupCount g)) 0) (hour_of x)
          then week_loop now x (g\<lparr>backupCount := backupCount g - 1\<rparr>)
        else (g\<lparr>deleteSnap := True\<rparr>, [])
     else (g, []))"
  by (subst week_loop.simps)
     (simp add: Let_def week_diff_def hour_of_def dayModeLimit_def weekModeLimit_def)

lemma week_loop_newer:
  "0 \<le> backupCount g \<Longrightarrow> backupCount g \<le> 3 \<Longrightarrow> Date now (- 7) 0 \<le> hour_of x \<Longrightarrow>
   week_loop now x g = (g\<lparr>deleteSnap := True\<rparr>, [])"
  by (subst week_loop_unfold) (simp add: week_diff_0 week_diff_pos Date_eq)

lemma week_loop_shape:
  "- 1 \<le> backupCount g \<Longrightarrow>
   fst (week_loop now x g) = g\<lparr>backupCount := - 1\<rparr>
   \<or> (\<exists>c. 0 \<le> c \<and> c \<le> backupCount g \<and>
         (fst (week_loop now x g) = g\<lparr>deleteSnap := True, backupCount := c\<rparr>
          \<or> fst (week_loop now x g) =
               \<lparr>deleteSnap = False, backupMode = (if c = 0 then MMonth else backupMode g),
                backupCount = c - 1\<rparr>))"
proof (induction "nat (backupCount g + 1)" arbitrary: g)
  case 0
  then have "backupCount g = - 1" by simp
  then show ?case by (subst week_loop_unfold) simp
next
  case (Suc n)
  then have c: "0 \<le> backupCount g" by simp
  let ?d = "week_diff (Date now (- 7 - 7 * (4 - backupCount g)) 0) (hour_of x)"
  consider "?d = 0" | "0 < ?d" | "?d < 0" by linarith
  then show ?case
  proof cases
    case 1
    then have "fst (week_loop now x g) =
      \<lparr>deleteSnap = False, backupMode = (if backupCount g = 0 then MMonth else backupMode g),
       backupCount = backupCount g - 1\<rparr>"
      using c by (subst week_loop_unfold) simp
    then show ?thesis using c by blast
  next
    case 2
    let ?g = "g\<lparr>backupCount := backupCount g - 1\<rparr>"
    have eq: "week_loop now x g = week_loop now x ?g"
      using c 2 by (subst week_loop_unfold) simp
    have "fst (week_loop now x ?g) = ?g\<lparr>backupCount := - 1\<rparr>
      \<or> (\<exists>c. 0 \<le> c \<and> c \<le> backupCount ?g \<and>
         (fst (week_loop now x ?g) = ?g\<lparr>deleteSnap := True, backupCount := c\<rparr>
          \<or> fst (week_loop now x ?g) =
               \<lparr>deleteSnap = False, backupMode = (if c = 0 then MMonth else backupMode ?g),
                backupCount = c - 1\<rparr>))"
      using Suc.hyps(2) c by (intro Suc.hyps(1)) simp_all
    then show ?thesis unfolding eq
      by (elim disjE exE conjE) (simp, (rule disjI2, rule_tac x = c in exI, simp)+)
  next
    case 3
    then have "fst (week_loop now x g) = g\<lparr>deleteSnap := True, backupCount := backupCount g\<rparr>"
      using c by (subst week_loop_unfold) simp
    then show ?thesis using c by blast
  qed
qed

lemma fst_week_case:
  "fst (week_case now x g) =
    (let g1 = fst (week_loop now x g) in
     if 0 \<le> backupCount g1 then g1 else if backupMode g1 = MMonth then g1
     else g1\<lparr>backupMode := MMonth, deleteSnap := True\<rparr>)"
  by (simp add: week_case_def month_case_def Let_def split: prod.split)

lemma fst_day_case:
  "fst (day_case now x g) =
    (let g1 = fst (day_loop now x g) in
     if 0 \<le> backupCount g1 then g1 else if backupMode g1 = MWeek then g1
     else fst (week_case now x (g1\<lparr>backupMode := MWeek, backupCount := 3\<rparr>)))"
  by (simp add: day_case_def weekModeLimit_def Let_def split: prod.split)

lemma fst_hour_case:
  "fst (hour_case now x g) =
    (let g1 = fst (hour_loop now x g) in
     if 0 \<le> backupCount g1 then g1 else if backupMode g1 = MDay then g1
     else fst (day_case now x (g1\<lparr>backupMode := MDay, backupCount := 6\<rparr>)))"
  by (simp add: hour_case_def dayModeLimit_def Let_def split: prod.split)

lemma fst_none_case:
  "fst (none_case now x g) =
    (if Truncate now Hour = hour_of x then g\<lparr>deleteSnap := False\<rparr>
     else fst (hour_case now x (g\<lparr>deleteSnap := False, backupMode := MHour, backupCount := 23\<rparr>)))"
  by (simp add: none_case_def hourModeLimit_def hour_of_def Let_def split: prod.split)

lemma next_gc_mode:
  "next_gc now g x = (case backupMode g of
     MNone \<Rightarrow> fst (none_case now x g)
   | MHour \<Rightarrow> fst (hour_case now x g)
   | MDay \<Rightarrow> fst (day_case now x g)
   | MWeek \<Rightarrow> fst (week_case now x g)
   | MMonth \<Rightarrow> g\<lparr>deleteSnap := True\<rparr>)"
  by (simp add: next_gc_def mode_switch_def month_case_def split: mode.split)

text \<open>Month\<close>

lemma next_Month: "backupMode g = MMonth \<Longrightarrow> next_gc now g x = g\<lparr>deleteSnap := True\<rparr>"
  by (simp add: next_gc_mode)

text \<open>Week\<close>

lemma week_case_newer:
  "0 \<le> backupCount g \<Longrightarrow> backupCount g \<le> 3 \<Longrightarrow> Date now (- 7) 0 \<le> hour_of x \<Longrightarrow>
   fst (week_case now x g) = g\<lparr>deleteSnap := True\<rparr>"
  by (simp add: fst_week_case week_loop_newer)

lemma week_case_shape:
  assumes "backupMode g = MWeek" "0 \<le> backupCount g"
  shows "fst (week_case now x g) = \<lparr>deleteSnap = True, backupMode = MMonth, backupCount = - 1\<rparr>
    \<or> (\<exists>c. 0 \<le> c \<and> c \<le> backupCount g \<and>
         (fst (week_case now x g) = \<lparr>deleteSnap = True, backupMode = MWeek, backupCount = c\<rparr>
          \<or> fst (week_case now x g) =
               \<lparr>deleteSnap = False, backupMode = (if c = 0 then MMonth else MWeek),
                backupCount = c - 1\<rparr>))"
proof -
  have m1: "- 1 \<le> backupCount g" using assms by simp
  obtain a m k where g: "g = \<lparr>deleteSnap = a, backupMode = m, backupCount = k\<rparr>" by (cases g) simp
  from week_loop_shape [OF m1, of now x] show ?thesis
  proof (elim disjE exE conjE)
    assume "fst (week_loop now x g) = g\<lparr>backupCount := - 1\<rparr>"
    then show ?thesis using assms g by (simp add: fst_week_case)
  next
    fix c assume "0 \<le> c" "c \<le> backupCount g"
      "fst (week_loop now x g) = g\<lparr>deleteSnap := True, backupCount := c\<rparr>"
    then have "fst (week_case now x g) = \<lparr>deleteSnap = True, backupMode = MWeek, backupCount = c\<rparr>"
      using assms g by (simp add: fst_week_case)
    then show ?thesis using \<open>0 \<le> c\<close> \<open>c \<le> backupCount g\<close> by blast
  next
    fix c assume c: "0 \<le> c" "c \<le> backupCount g"
      "fst (week_loop now x g) = \<lparr>deleteSnap = False,
         backupMode = (if c = 0 then MMonth else backupMode g), backupCount = c - 1\<rparr>"
    then have "fst (week_case now x g) = \<lparr>deleteSnap = False,
         backupMode = (if c = 0 then MMonth else MWeek), backupCount = c - 1\<rparr>"
      using assms by (simp add: fst_week_case)
    then show ?thesis using c(1,2) by blast
  qed
qed

text \<open>Day\<close>

lemma day_case_newer:
  "0 \<le> backupCount g \<Longrightarrow> Date now (- 7 + backupCount g) 0 < day_of x \<Longrightarrow>
   fst (day_case now x g) = g\<lparr>deleteSnap := True\<rparr>"
  by (simp add: fst_day_case day_loop_newer)

lemma day_case_match:
  "backupMode g = MDay \<Longrightarrow> 0 \<le> c \<Longrightarrow> c \<le> backupCount g \<Longrightarrow> day_of x = Date now (- 7 + c) 0 \<Longrightarrow>
   fst (day_case now x g) =
     (if c = 0 then \<lparr>deleteSnap = False, backupMode = MWeek, backupCount = 3\<rparr>
      else \<lparr>deleteSnap = False, backupMode = MDay, backupCount = c - 1\<rparr>)"
  by (simp add: fst_day_case day_loop_match)

lemma day_case_older:
  "backupMode g = MDay \<Longrightarrow> - 1 \<le> backupCount g \<Longrightarrow> day_of x < Date now (- 7) 0 \<Longrightarrow>
   fst (day_case now x g) = fst (week_case now x (g\<lparr>backupMode := MWeek, backupCount := 3\<rparr>))"
  by (simp add: fst_day_case day_loop_older)

lemma day_cases:
  assumes "0 \<le> k"
  obtains "Date now (- 7 + k) 0 < day_of x"
  | c where "0 \<le> c" "c \<le> k" "day_of x = Date now (- 7 + c) 0"
  | "day_of x < Date now (- 7) 0"
proof -
  let ?D = "86400000000000 :: int"
  let ?M = "now - now mod ?D"
  have dM: "?D dvd ?M" by (rule dvd_minus_mod)
  have "?D dvd day_of x - ?M" using day_dvd dM by (rule dvd_diff)
  then obtain q where q: "day_of x - ?M = ?D * q" by (auto simp: dvd_def)
  then have dx: "day_of x = ?M + ?D * q" by simp
  have D: "Date now (- 7 + c) 0 = ?M + ?D * (c - 7)" for c by (simp add: Date_eq algebra_simps)
  have D7: "Date now (- 7) 0 = ?M + ?D * (- 7)" by (simp add: Date_eq)
  consider "k - 7 < q" | "- 7 \<le> q \<and> q \<le> k - 7" | "q < - 7" by linarith
  then show thesis
  proof cases
    case 1
    then have "Date now (- 7 + k) 0 < day_of x" unfolding D dx by simp
    then show ?thesis by (rule that(1))
  next
    case 2
    have "day_of x = Date now (- 7 + (q + 7)) 0" unfolding D dx by simp
    moreover have "0 \<le> q + 7" "q + 7 \<le> k" using 2 by simp_all
    ultimately show ?thesis using that(2) by blast
  next
    case 3
    then have "day_of x < Date now (- 7) 0" unfolding D7 dx by simp
    then show ?thesis by (rule that(3))
  qed
qed

text \<open>Hour\<close>

lemma hour_case_newer:
  "0 \<le> backupCount g \<Longrightarrow> Date now 0 (backupCount g) < hour_of x \<Longrightarrow>
   fst (hour_case now x g) = g\<lparr>deleteSnap := True\<rparr>"
  by (simp add: fst_hour_case hour_loop_newer)

lemma hour_case_match:
  "backupMode g = MHour \<Longrightarrow> 0 \<le> c \<Longrightarrow> c \<le> backupCount g \<Longrightarrow> hour_of x = Date now 0 c \<Longrightarrow>
   fst (hour_case now x g) =
     (if c = 0 then \<lparr>deleteSnap = False, backupMode = MDay, backupCount = 6\<rparr>
      else \<lparr>deleteSnap = False, backupMode = MHour, backupCount = c - 1\<rparr>)"
  by (simp add: fst_hour_case hour_loop_match)

lemma hour_case_older:
  "backupMode g = MHour \<Longrightarrow> - 1 \<le> backupCount g \<Longrightarrow> hour_of x < Date now 0 0 \<Longrightarrow>
   fst (hour_case now x g) = fst (day_case now x (g\<lparr>backupMode := MDay, backupCount := 6\<rparr>))"
  by (simp add: fst_hour_case hour_loop_older)

lemma hour_cases:
  assumes "0 \<le> k"
  obtains "Date now 0 k < hour_of x"
  | c where "0 \<le> c" "c \<le> k" "hour_of x = Date now 0 c"
  | "hour_of x < Date now 0 0"
proof -
  let ?H = "3600000000000 :: int"
  let ?M = "now - now mod 86400000000000"
  have M: "Date now 0 0 = ?M" by (simp add: Date_eq)
  have "?H dvd hour_of x - Date now 0 0" using hour_dvd Date_hour_dvd by (rule dvd_diff)
  then obtain q where q: "hour_of x - ?M = ?H * q" unfolding M by (auto simp: dvd_def)
  then have dx: "hour_of x = ?M + ?H * q" by simp
  have D: "Date now 0 c = ?M + ?H * c" for c by (simp add: Date_eq algebra_simps)
  consider "k < q" | "0 \<le> q \<and> q \<le> k" | "q < 0" by linarith
  then show thesis
  proof cases
    case 1
    then have "Date now 0 k < hour_of x" unfolding D dx by simp
    then show ?thesis by (rule that(1))
  next
    case 2
    have "hour_of x = Date now 0 q" unfolding D dx by simp
    then show ?thesis using 2 that(2) by blast
  next
    case 3
    then have "hour_of x < Date now 0 0" unfolding M dx by simp
    then show ?thesis by (rule that(3))
  qed
qed

text \<open>Summary from week state\<close>

lemma week_case_summary:
  assumes "backupMode g = MWeek" "0 \<le> backupCount g" "backupCount g \<le> 3"
  shows "valid_gc (fst (week_case now x g))
     \<and> backupMode (fst (week_case now x g)) \<in> {MWeek, MMonth}
     \<and> capacity (fst (week_case now x g)) \<le> capacity g
     \<and> (\<not> deleteSnap (fst (week_case now x g)) \<longrightarrow> capacity (fst (week_case now x g)) < capacity g)"
  using week_case_shape [OF assms(1,2), of now x] assms
  by (elim disjE exE conjE) (auto simp: valid_gc_def capacity_def)

lemma day_case_summary:
  assumes "backupMode g = MDay" "0 \<le> backupCount g" "backupCount g \<le> 6"
  shows "valid_gc (fst (day_case now x g))
     \<and> backupMode (fst (day_case now x g)) \<in> {MDay, MWeek, MMonth}
     \<and> capacity (fst (day_case now x g)) \<le> capacity g
     \<and> (\<not> deleteSnap (fst (day_case now x g)) \<longrightarrow> capacity (fst (day_case now x g)) < capacity g)"
proof (cases rule: day_cases [OF assms(2), of now x])
  case 1
  then show ?thesis using assms by (simp add: day_case_newer valid_gc_def capacity_def)
next
  case (2 c)
  then show ?thesis using assms by (simp add: day_case_match valid_gc_def capacity_def)
next
  case 3
  let ?g = "g\<lparr>backupMode := MWeek, backupCount := 3\<rparr>"
  have eq: "fst (day_case now x g) = fst (week_case now x ?g)"
    using 3 assms by (simp add: day_case_older)
  have "capacity ?g < capacity g" using assms by (simp add: capacity_def)
  then show ?thesis unfolding eq using week_case_summary [of ?g now x] by auto
qed

lemma hour_case_summary:
  assumes "backupMode g = MHour" "0 \<le> backupCount g" "backupCount g \<le> 23"
  shows "valid_gc (fst (hour_case now x g))
     \<and> backupMode (fst (hour_case now x g)) \<in> {MHour, MDay, MWeek, MMonth}
     \<and> capacity (fst (hour_case now x g)) \<le> capacity g
     \<and> (\<not> deleteSnap (fst (hour_case now x g)) \<longrightarrow> capacity (fst (hour_case now x g)) < capacity g)"
proof (cases rule: hour_cases [OF assms(2), of now x])
  case 1
  then show ?thesis using assms by (simp add: hour_case_newer valid_gc_def capacity_def)
next
  case (2 c)
  then show ?thesis using assms by (simp add: hour_case_match valid_gc_def capacity_def)
next
  case 3
  let ?g = "g\<lparr>backupMode := MDay, backupCount := 6\<rparr>"
  have eq: "fst (hour_case now x g) = fst (day_case now x ?g)"
    using 3 assms by (simp add: hour_case_older)
  have "capacity ?g < capacity g" using assms by (simp add: capacity_def)
  then show ?thesis unfolding eq using day_case_summary [of ?g now x] by auto
qed

lemma next_gc_summary:
  assumes "valid_gc g"
  shows "valid_gc (next_gc now g x)
     \<and> rank (backupMode g) \<le> rank (backupMode (next_gc now g x))
     \<and> capacity (next_gc now g x) \<le> capacity g
     \<and> (\<not> deleteSnap (next_gc now g x) \<longrightarrow>
          \<not> (backupMode g = MNone \<and> hour_of x = Truncate now Hour) \<longrightarrow>
          capacity (next_gc now g x) < capacity g)"
proof (cases "backupMode g")
  case MNone
  show ?thesis
  proof (cases "Truncate now Hour = hour_of x")
    case True
    then show ?thesis using MNone by (simp add: next_gc_mode fst_none_case valid_gc_def capacity_def)
  next
    case False
    let ?g = "g\<lparr>deleteSnap := False, backupMode := MHour, backupCount := 23\<rparr>"
    have eq: "next_gc now g x = fst (hour_case now x ?g)"
      using False MNone by (simp add: next_gc_mode fst_none_case)
    have "capacity ?g = capacity g" using MNone by (simp add: capacity_def)
    then show ?thesis unfolding eq using hour_case_summary [of ?g now x] MNone by auto
  qed
next
  case MHour
  then show ?thesis using assms hour_case_summary [of g now x]
    by (auto simp: next_gc_mode valid_gc_def)
next
  case MDay
  then show ?thesis using assms day_case_summary [of g now x]
    by (auto simp: next_gc_mode valid_gc_def)
next
  case MWeek
  then show ?thesis using assms week_case_summary [of g now x]
    by (auto simp: next_gc_mode valid_gc_def)
next
  case MMonth
  then show ?thesis by (simp add: next_gc_mode valid_gc_def capacity_def)
qed

lemma midnight_le_now_hour: "Date now 0 0 \<le> Truncate now Hour"
  using day_of_hour_of [of "\<lparr>Kind = Full, CreatedOn = now, SnapDir = [], SnapName = []\<rparr>"]
  by (simp add: day_of_eq hour_of_eq Date_eq Truncate_Hour)

lemma hour_bucket_day:
  assumes "0 \<le> h" "h \<le> 23" "hour_of x = Date now 0 h"
  shows "day_of x = Date now 0 0"
proof -
  let ?D = "86400000000000 :: int"
  have a: "day_of x \<le> hour_of x" "hour_of x < day_of x + ?D" using day_of_hour_of [of x] by simp_all
  have b: "Date now 0 0 \<le> hour_of x" "hour_of x < Date now 0 0 + ?D"
    using assms by (simp_all add: Date_eq)
  have d1: "?D dvd day_of x" by (rule day_dvd)
  have d2: "?D dvd Date now 0 0" by (rule Date_day_dvd)
  show ?thesis
  proof (rule ccontr)
    assume "day_of x \<noteq> Date now 0 0"
    then consider "day_of x < Date now 0 0" | "Date now 0 0 < day_of x" by linarith
    then show False
    proof cases
      case 1
      then have "day_of x + ?D \<le> Date now 0 0" using aligned_lt [OF d1 d2] by simp
      with a b show False by simp
    next
      case 2
      then have "Date now 0 0 + ?D \<le> day_of x" using aligned_lt [OF d2 d1] by simp
      with a b show False by simp
    qed
  qed
qed

lemma day_bucket_hour:
  assumes "1 \<le> k" "k \<le> 7" "day_of x = Date now (- k) 0"
  shows "hour_of x < Date now 0 0" "Date now (- 7) 0 \<le> hour_of x" "Truncate now Hour \<noteq> hour_of x"
proof -
  have a: "day_of x \<le> hour_of x" "hour_of x < day_of x + 86400000000000"
    using day_of_hour_of [of x] by simp_all
  show 1: "hour_of x < Date now 0 0" using a assms by (simp add: Date_eq)
  show "Date now (- 7) 0 \<le> hour_of x" using a assms by (simp add: Date_eq)
  show "Truncate now Hour \<noteq> hour_of x" using 1 midnight_le_now_hour [of now] by simp
qed

lemma Date_hour_inj: "Date now 0 a = Date now 0 b \<longleftrightarrow> a = b"
  by (simp add: Date_eq)

lemma Date_hour_less: "Date now 0 a < Date now 0 b \<longleftrightarrow> a < b"
  by (simp add: Date_eq)

lemma Date_day_inj: "Date now a 0 = Date now b 0 \<longleftrightarrow> a = b"
  by (simp add: Date_eq)

lemma Date_day_less: "Date now a 0 < Date now b 0 \<longleftrightarrow> a < b"
  by (simp add: Date_eq)

text \<open>S1: the decision for a snapshot of a bucket\<close>

lemma decision_in_bucket:
  assumes v: "valid_gc g" and b: "in_bucket now b x"
  shows "deleteSnap (next_gc now g x) = closed b g"
proof (cases b)
  case (HourBucket h)
  with b have h: "0 \<le> h" "h \<le> 23" "hour_of x = Date now 0 h" by simp_all
  have dx: "day_of x = Date now 0 0" using h by (rule hour_bucket_day)
  show ?thesis
  proof (cases "backupMode g")
    case MNone
    show ?thesis
    proof (cases "Truncate now Hour = hour_of x")
      case True
      then show ?thesis using MNone HourBucket by (simp add: next_gc_mode fst_none_case)
    next
      case False
      then show ?thesis using MNone HourBucket h
        by (simp add: next_gc_mode fst_none_case hour_case_match)
    qed
  next
    case MHour
    then have c: "0 \<le> backupCount g" using v by (simp add: valid_gc_def)
    show ?thesis
    proof (cases "h \<le> backupCount g")
      case True
      then show ?thesis using MHour HourBucket h by (simp add: next_gc_mode hour_case_match)
    next
      case False
      then have "Date now 0 (backupCount g) < hour_of x" using h by (simp add: Date_hour_less)
      then show ?thesis using MHour HourBucket c False by (simp add: next_gc_mode hour_case_newer)
    qed
  next
    case MDay
    then have c: "0 \<le> backupCount g" "backupCount g \<le> 6" using v by (simp_all add: valid_gc_def)
    then have "Date now (- 7 + backupCount g) 0 < day_of x" unfolding dx by (simp add: Date_day_less)
    then show ?thesis using MDay HourBucket c by (simp add: next_gc_mode day_case_newer)
  next
    case MWeek
    then have c: "0 \<le> backupCount g" "backupCount g \<le> 3" using v by (simp_all add: valid_gc_def)
    have "Date now (- 7) 0 \<le> hour_of x" using h by (simp add: Date_eq)
    then show ?thesis using MWeek HourBucket c by (simp add: next_gc_mode week_case_newer)
  next
    case MMonth
    then show ?thesis using HourBucket by (simp add: next_gc_mode)
  qed
next
  case (DayBucket k)
  with b have k: "1 \<le> k" "k \<le> 7" "day_of x = Date now (- k) 0" by simp_all
  note hx = day_bucket_hour [OF k]
  have dk: "day_of x = Date now (- 7 + (7 - k)) 0" using k by simp
  have viaDay: "fst (day_case now x (g'\<lparr>backupMode := MDay, backupCount := 6\<rparr>)) =
     (if 7 - k = 0 then \<lparr>deleteSnap = False, backupMode = MWeek, backupCount = 3\<rparr>
      else \<lparr>deleteSnap = False, backupMode = MDay, backupCount = 7 - k - 1\<rparr>)" for g'
    using k dk by (intro day_case_match) simp_all
  show ?thesis
  proof (cases "backupMode g")
    case MNone
    then show ?thesis using DayBucket hx viaDay [of "g\<lparr>deleteSnap := False, backupMode := MHour, backupCount := 23\<rparr>"]
      by (simp add: next_gc_mode fst_none_case hour_case_older)
  next
    case MHour
    then have c: "0 \<le> backupCount g" using v by (simp add: valid_gc_def)
    then show ?thesis using MHour DayBucket hx viaDay [of g]
      by (simp add: next_gc_mode hour_case_older)
  next
    case MDay
    then have c: "0 \<le> backupCount g" "backupCount g \<le> 6" using v by (simp_all add: valid_gc_def)
    show ?thesis
    proof (cases "7 - k \<le> backupCount g")
      case True
      have "fst (day_case now x g) =
        (if 7 - k = 0 then \<lparr>deleteSnap = False, backupMode = MWeek, backupCount = 3\<rparr>
         else \<lparr>deleteSnap = False, backupMode = MDay, backupCount = 7 - k - 1\<rparr>)"
        using MDay True k dk by (intro day_case_match) simp_all
      then show ?thesis using MDay DayBucket True by (simp add: next_gc_mode)
    next
      case False
      then have "Date now (- 7 + backupCount g) 0 < day_of x" unfolding k(3) by (simp add: Date_day_less)
      then show ?thesis using MDay DayBucket c False by (simp add: next_gc_mode day_case_newer)
    qed
  next
    case MWeek
    then have c: "0 \<le> backupCount g" "backupCount g \<le> 3" using v by (simp_all add: valid_gc_def)
    then show ?thesis using MWeek DayBucket hx by (simp add: next_gc_mode week_case_newer)
  next
    case MMonth
    then show ?thesis using DayBucket by (simp add: next_gc_mode)
  qed
qed

lemma closed_absorbing:
  assumes v: "valid_gc g" and c: "closed b g"
  shows "closed b (next_gc now g x)"
proof -
  note s = next_gc_summary [OF v, of now x]
  show ?thesis
  proof (cases b)
    case (HourBucket h)
    then show ?thesis using c s
      by (cases "backupMode g"; cases "backupMode (next_gc now g x)") (auto simp: capacity_def)
  next
    case (DayBucket k)
    then show ?thesis using c s
      by (cases "backupMode g"; cases "backupMode (next_gc now g x)") (auto simp: capacity_def)
  qed
qed

lemma open_bucket_next:
  assumes v: "valid_gc g" and b: "in_bucket now b x" and o: "\<not> closed b g"
    and n: "\<not> (backupMode g = MNone \<and> Truncate now Hour = hour_of x)"
  shows "next_gc now g x = (case b of
      HourBucket h \<Rightarrow> if h = 0 then \<lparr>deleteSnap = False, backupMode = MDay, backupCount = 6\<rparr>
                      else \<lparr>deleteSnap = False, backupMode = MHour, backupCount = h - 1\<rparr>
    | DayBucket k \<Rightarrow> if k = 7 then \<lparr>deleteSnap = False, backupMode = MWeek, backupCount = 3\<rparr>
                      else \<lparr>deleteSnap = False, backupMode = MDay, backupCount = 6 - k\<rparr>)"
proof (cases b)
  case (HourBucket h)
  with b have h: "0 \<le> h" "h \<le> 23" "hour_of x = Date now 0 h" by simp_all
  show ?thesis
  proof (cases "backupMode g")
    case MNone
    then show ?thesis using n HourBucket h
      by (simp add: next_gc_mode fst_none_case hour_case_match)
  next
    case MHour
    then show ?thesis using o HourBucket h by (simp add: next_gc_mode hour_case_match)
  qed (use o HourBucket in simp_all)
next
  case (DayBucket k)
  with b have k: "1 \<le> k" "k \<le> 7" "day_of x = Date now (- k) 0" by simp_all
  note hx = day_bucket_hour [OF k]
  have dk: "day_of x = Date now (- 7 + (7 - k)) 0" using k by simp
  have viaDay: "fst (day_case now x (g'\<lparr>backupMode := MDay, backupCount := 6\<rparr>)) =
     (if 7 - k = 0 then \<lparr>deleteSnap = False, backupMode = MWeek, backupCount = 3\<rparr>
      else \<lparr>deleteSnap = False, backupMode = MDay, backupCount = 7 - k - 1\<rparr>)" for g'
    using k dk by (intro day_case_match) simp_all
  have e: "7 - k - 1 = 6 - k" "(7 - k = 0) = (k = 7)" by auto
  show ?thesis
  proof (cases "backupMode g")
    case MNone
    then show ?thesis using DayBucket hx viaDay [of "g\<lparr>deleteSnap := False, backupMode := MHour, backupCount := 23\<rparr>"]
      by (simp add: next_gc_mode fst_none_case hour_case_older e)
  next
    case MHour
    then have c: "0 \<le> backupCount g" using v by (simp add: valid_gc_def)
    then show ?thesis using MHour DayBucket hx viaDay [of g]
      by (simp add: next_gc_mode hour_case_older e)
  next
    case MDay
    then have "7 - k \<le> backupCount g" using o DayBucket by simp
    then have "fst (day_case now x g) =
        (if 7 - k = 0 then \<lparr>deleteSnap = False, backupMode = MWeek, backupCount = 3\<rparr>
         else \<lparr>deleteSnap = False, backupMode = MDay, backupCount = 7 - k - 1\<rparr>)"
      using MDay k dk by (intro day_case_match) simp_all
    then show ?thesis using MDay DayBucket by (simp add: next_gc_mode e)
  qed (use o DayBucket in simp_all)
qed

lemma closed_after_bucket:
  assumes v: "valid_gc g" and b: "in_bucket now b x"
    and n: "\<not> (backupMode g = MNone \<and> Truncate now Hour = hour_of x)"
  shows "closed b (next_gc now g x)"
proof (cases "closed b g")
  case True
  then show ?thesis using v by (rule closed_absorbing [rotated])
next
  case False
  show ?thesis unfolding open_bucket_next [OF v b False n]
    using b by (cases b) auto
qed

text \<open>A bucket that still has a snapshot to come stays open.\<close>

lemma day_state_stays_open:
  assumes "backupMode g = MDay" "0 \<le> backupCount g" "7 - k \<le> backupCount g" "1 \<le> k" "k \<le> 7"
    and "Date now (- k) 0 < day_of x"
  shows "\<not> closed (DayBucket k) (fst (day_case now x g))"
proof (cases rule: day_cases [OF assms(2), of now x])
  case 1
  then have "fst (day_case now x g) = g\<lparr>deleteSnap := True\<rparr>"
    using assms(2) by (rule day_case_newer [rotated])
  then show ?thesis using assms by simp
next
  case (2 c)
  then have lt: "- k < - 7 + c" using assms(6) by (simp add: Date_day_less)
  then have c0: "c \<noteq> 0" using assms(5) by simp
  have "fst (day_case now x g) = \<lparr>deleteSnap = False, backupMode = MDay, backupCount = c - 1\<rparr>"
    using day_case_match [OF assms(1) 2] c0 by simp
  then show ?thesis using lt by simp
next
  case 3
  then have "Date now (- k) 0 < Date now (- 7) 0" using assms(6) by simp
  then show ?thesis using assms by (simp add: Date_day_less)
qed

lemma hour_state_stays_open_day:
  assumes "backupMode g = MHour" "0 \<le> backupCount g" "1 \<le> k" "k \<le> 7"
    and "Date now (- k) 0 < day_of x"
  shows "\<not> closed (DayBucket k) (fst (hour_case now x g))"
proof (cases rule: hour_cases [OF assms(2), of now x])
  case 1
  then have "fst (hour_case now x g) = g\<lparr>deleteSnap := True\<rparr>"
    using assms(2) by (rule hour_case_newer [rotated])
  then show ?thesis using assms by simp
next
  case (2 c)
  have "fst (hour_case now x g) =
     (if c = 0 then \<lparr>deleteSnap = False, backupMode = MDay, backupCount = 6\<rparr>
      else \<lparr>deleteSnap = False, backupMode = MHour, backupCount = c - 1\<rparr>)"
    by (rule hour_case_match [OF assms(1) 2])
  then show ?thesis using assms by simp
next
  case 3
  let ?g = "g\<lparr>backupMode := MDay, backupCount := 6\<rparr>"
  have eq: "fst (hour_case now x g) = fst (day_case now x ?g)"
    using 3 assms by (simp add: hour_case_older)
  have "\<not> closed (DayBucket k) (fst (day_case now x ?g))"
    by (rule day_state_stays_open) (use assms in simp_all)
  then show ?thesis unfolding eq .
qed

lemma hour_state_stays_open:
  assumes "backupMode g = MHour" "0 \<le> backupCount g" "h \<le> backupCount g" "0 \<le> h"
    and "Date now 0 h < hour_of x"
  shows "\<not> closed (HourBucket h) (fst (hour_case now x g))"
proof (cases rule: hour_cases [OF assms(2), of now x])
  case 1
  then have "fst (hour_case now x g) = g\<lparr>deleteSnap := True\<rparr>"
    using assms(2) by (rule hour_case_newer [rotated])
  then show ?thesis using assms by simp
next
  case (2 c)
  then have lt: "h < c" using assms(5) by (simp add: Date_hour_less)
  then have c0: "c \<noteq> 0" using assms(4) by simp
  have "fst (hour_case now x g) = \<lparr>deleteSnap = False, backupMode = MHour, backupCount = c - 1\<rparr>"
    using hour_case_match [OF assms(1) 2] c0 by simp
  then show ?thesis using lt by simp
next
  case 3
  then have "Date now 0 h < Date now 0 0" using assms(5) by simp
  then show ?thesis using assms by (simp add: Date_hour_less)
qed

lemma stays_open:
  assumes v: "valid_gc g" and y: "in_bucket now b y" and le: "CreatedOn y \<le> CreatedOn x"
    and o: "\<not> closed b g" and nx: "\<not> in_bucket now b x"
  shows "\<not> closed b (next_gc now g x)"
proof (cases b)
  case (HourBucket h)
  with y have h: "0 \<le> h" "h \<le> 23" "hour_of y = Date now 0 h" by simp_all
  have "Date now 0 h \<le> hour_of x" using hour_of_mono [OF le] h by simp
  moreover have "hour_of x \<noteq> Date now 0 h" using nx HourBucket h by simp
  ultimately have lt: "Date now 0 h < hour_of x" by simp
  show ?thesis
  proof (cases "backupMode g")
    case MNone
    show ?thesis
    proof (cases "Truncate now Hour = hour_of x")
      case True
      then show ?thesis using MNone HourBucket by (simp add: next_gc_mode fst_none_case)
    next
      case False
      let ?g = "g\<lparr>deleteSnap := False, backupMode := MHour, backupCount := 23\<rparr>"
      have "\<not> closed (HourBucket h) (fst (hour_case now x ?g))"
        by (rule hour_state_stays_open) (use h lt in simp_all)
      then show ?thesis using False MNone HourBucket
        by (simp add: next_gc_mode fst_none_case del: closed.simps)
    qed
  next
    case MHour
    have "\<not> closed (HourBucket h) (fst (hour_case now x g))"
      by (rule hour_state_stays_open) (use MHour v o HourBucket h lt in \<open>simp_all add: valid_gc_def\<close>)
    then show ?thesis using MHour HourBucket by (simp add: next_gc_mode del: closed.simps)
  qed (use o HourBucket in simp_all)
next
  case (DayBucket k)
  with y have k: "1 \<le> k" "k \<le> 7" "day_of y = Date now (- k) 0" by simp_all
  have "Date now (- k) 0 \<le> day_of x" using day_of_mono [OF le] k by simp
  moreover have "day_of x \<noteq> Date now (- k) 0" using nx DayBucket k by simp
  ultimately have lt: "Date now (- k) 0 < day_of x" by simp
  show ?thesis
  proof (cases "backupMode g")
    case MNone
    show ?thesis
    proof (cases "Truncate now Hour = hour_of x")
      case True
      then show ?thesis using MNone DayBucket by (simp add: next_gc_mode fst_none_case)
    next
      case False
      let ?g = "g\<lparr>deleteSnap := False, backupMode := MHour, backupCount := 23\<rparr>"
      have "\<not> closed (DayBucket k) (fst (hour_case now x ?g))"
        by (rule hour_state_stays_open_day) (use k lt in simp_all)
      then show ?thesis using False MNone DayBucket
        by (simp add: next_gc_mode fst_none_case del: closed.simps)
    qed
  next
    case MHour
    have "\<not> closed (DayBucket k) (fst (hour_case now x g))"
      by (rule hour_state_stays_open_day) (use MHour v k lt in \<open>simp_all add: valid_gc_def\<close>)
    then show ?thesis using MHour DayBucket by (simp add: next_gc_mode del: closed.simps)
  next
    case MDay
    have "\<not> closed (DayBucket k) (fst (day_case now x g))"
      by (rule day_state_stays_open) (use MDay v o DayBucket k lt in \<open>simp_all add: valid_gc_def\<close>)
    then show ?thesis using MDay DayBucket by (simp add: next_gc_mode del: closed.simps)
  qed (use o DayBucket in simp_all)
qed

lemma gcds_trace:
  "garbageCollectDeltaSnapshots del snapStream w = (r, w') \<Longrightarrow>
    (r = None \<and> calls w' = calls w @ succeeded (rev (tl snapStream))
       \<and> store w' = run_deletes del (rev (tl snapStream)) (store w))
    \<or> (\<exists>k e. r = Some e \<and> k < length (tl snapStream)
       \<and> calls w' = calls w @ succeeded (take k (rev (tl snapStream)))
                       @ [(rev (tl snapStream) ! k, Some e)]
       \<and> fst (del (rev (tl snapStream) ! k)
                (run_deletes del (take k (rev (tl snapStream))) (store w))) = Some e
       \<and> store w' = run_deletes del (take (Suc k) (rev (tl snapStream))) (store w))"
  using sweep_trace [of "length snapStream - 1" snapStream del w r w']
  by (simp add: garbageCollectDeltaSnapshots_def succeeded_def)

lemma exp_body_trace:
  assumes "exp_body del now snapList idx j (g, w) = (g', w')"
  defines "ds \<equiv> rev (tl (slice snapList (idx ! j) (idx ! (j + 1))))"
  defines "h \<equiv> snapList ! (idx ! j)"
  shows "(\<exists>k e. k < length ds \<and> g' = g \<and> \<not> always_succeeds del
            \<and> calls w' = calls w @ succeeded (take k ds) @ [(ds ! k, Some e)])
       \<or> (g' = next_gc now g h \<and> \<not> deleteSnap g' \<and> calls w' = calls w @ succeeded ds)
       \<or> (g' = next_gc now g h \<and> deleteSnap g'
            \<and> (\<exists>r. calls w' = calls w @ succeeded ds @ [(h, r)] \<and> (always_succeeds del \<longrightarrow> r = None)))"
proof -
  let ?ss = "slice snapList (idx ! j) (idx ! (j + 1))"
  obtain r w1 where sw: "garbageCollectDeltaSnapshots del ?ss w = (r, w1)"
    by (cases "garbageCollectDeltaSnapshots del ?ss w")
  from gcds_trace [OF sw] show ?thesis
  proof (elim disjE exE conjE)
    fix k e
    assume a: "r = Some e" "k < length (tl ?ss)"
      "calls w1 = calls w @ succeeded (take k (rev (tl ?ss))) @ [(rev (tl ?ss) ! k, Some e)]"
      "fst (del (rev (tl ?ss) ! k) (run_deletes del (take k (rev (tl ?ss))) (store w))) = Some e"
    have "\<not> always_succeeds del" using a(4) by (auto simp: always_succeeds_def)
    moreover have "g' = g" "w' = w1" using assms(1) sw a(1) by (simp_all add: Let_def)
    ultimately show ?thesis using a by (auto simp: ds_def)
  next
    assume a: "r = None" "calls w1 = calls w @ succeeded (rev (tl ?ss))"
    obtain g1 msgs where ms: "mode_switch now h g = (g1, msgs)" by (cases "mode_switch now h g")
    then have g1: "g1 = next_gc now g h" by (simp add: next_gc_def)
    show ?thesis
    proof (cases "deleteSnap g1")
      case False
      then have "g' = g1" "calls w' = calls w1"
        using assms(1) sw a(1) ms by (auto simp: Let_def h_def)
      then show ?thesis using False g1 a(2) by (simp add: ds_def)
    next
      case True
      let ?w3 = "logf Info (DeletingFull h) (w1\<lparr>logs := logs w1 @ msgs\<rparr>)"
      let ?r = "fst (del h (store ?w3))"
      have "g' = g1 \<and> calls w' = calls w1 @ [(h, ?r)]"
        using assms(1) sw a(1) ms True
        by (auto simp: Let_def h_def Delete_eq split: option.splits)
      moreover have "always_succeeds del \<longrightarrow> ?r = None" by (simp add: always_succeeds_def)
      ultimately show ?thesis using True g1 a(2) by (auto simp: ds_def)
    qed
  qed
qed

lemma limit_body_trace:
  assumes "limit_body del mb snapList idx j w = w'"
  defines "ds \<equiv> rev (tl (slice snapList (idx ! j) (idx ! (j + 1))))"
  defines "h \<equiv> snapList ! (idx ! j)"
  shows "(\<exists>k e. k < length ds \<and> \<not> always_succeeds del
            \<and> calls w' = calls w @ succeeded (take k ds) @ [(ds ! k, Some e)])
       \<or> (\<not> int j < wrap64 (int (length idx) - mb) \<and> calls w' = calls w @ succeeded ds)
       \<or> (int j < wrap64 (int (length idx) - mb)
            \<and> (\<exists>r. calls w' = calls w @ succeeded ds @ [(h, r)] \<and> (always_succeeds del \<longrightarrow> r = None)))"
proof -
  let ?ss = "slice snapList (idx ! j) (idx ! (j + 1))"
  obtain r w1 where sw: "garbageCollectDeltaSnapshots del ?ss w = (r, w1)"
    by (cases "garbageCollectDeltaSnapshots del ?ss w")
  from gcds_trace [OF sw] show ?thesis
  proof (elim disjE exE conjE)
    fix k e
    assume a: "r = Some e" "k < length (tl ?ss)"
      "calls w1 = calls w @ succeeded (take k (rev (tl ?ss))) @ [(rev (tl ?ss) ! k, Some e)]"
      "fst (del (rev (tl ?ss) ! k) (run_deletes del (take k (rev (tl ?ss))) (store w))) = Some e"
    have "\<not> always_succeeds del" using a(4) by (auto simp: always_succeeds_def)
    moreover have "w' = w1" using assms(1) sw a(1) by (simp add: limit_body_def)
    ultimately show ?thesis using a by (auto simp: ds_def)
  next
    assume a: "r = None" "calls w1 = calls w @ succeeded (rev (tl ?ss))"
    show ?thesis
    proof (cases "int j < wrap64 (int (length idx) - mb)")
      case False
      then have "w' = w1" using assms(1) sw a(1) by (simp add: limit_body_def)
      then show ?thesis using False a(2) by (simp add: ds_def)
    next
      case True
      let ?w2 = "logf Info (DeletingFull h) w1"
      let ?r = "fst (del h (store ?w2))"
      have "calls w' = calls w1 @ [(h, ?r)]"
        using assms(1) sw a(1) True
        by (auto simp: limit_body_def Let_def h_def Delete_eq split: option.splits)
      moreover have "always_succeeds del \<longrightarrow> ?r = None" by (simp add: always_succeeds_def)
      ultimately show ?thesis using True a(2) by (auto simp: ds_def)
    qed
  qed
qed

text \<open>The index list\<close>

lemma idx_sorted: "sorted_wrt (<) (snapStreamIndexList l)"
  by (auto simp: snapStreamIndexList_def intro: sorted_wrt_filter)

lemma idx_nonempty: "0 < length (snapStreamIndexList l)"
  by (simp add: snapStreamIndexList_def)

lemma idx_0: "snapStreamIndexList l ! 0 = 0"
  by (simp add: snapStreamIndexList_def)

lemma idx_less:
  "a < b \<Longrightarrow> b < length (snapStreamIndexList l) \<Longrightarrow> snapStreamIndexList l ! a < snapStreamIndexList l ! b"
  using idx_sorted [of l] by (simp add: sorted_wrt_nth_less)

lemma idx_le:
  "a \<le> b \<Longrightarrow> b < length (snapStreamIndexList l) \<Longrightarrow> snapStreamIndexList l ! a \<le> snapStreamIndexList l ! b"
  using idx_less [of a b l] by (cases "a = b") auto

lemma idx_in_range:
  assumes "0 < j" "j < length (snapStreamIndexList l)"
  shows "snapStreamIndexList l ! j < length l"
proof -
  have "snapStreamIndexList l ! j \<in> set (tl (snapStreamIndexList l))"
    using assms by (cases j) (simp_all add: snapStreamIndexList_def del: set_filter)
  then show ?thesis by (auto simp: snapStreamIndexList_def)
qed

lemma idx_full:
  assumes "0 < j" "j < length (snapStreamIndexList l)"
  shows "Kind (l ! (snapStreamIndexList l ! j)) = Full"
proof -
  have "snapStreamIndexList l ! j \<in> set (tl (snapStreamIndexList l))"
    using assms by (cases j) (simp_all add: snapStreamIndexList_def del: set_filter)
  then show ?thesis by (auto simp: snapStreamIndexList_def)
qed

lemma slice_map: "a \<le> b \<Longrightarrow> b \<le> length xs \<Longrightarrow> slice xs a b = map (nth xs) [a ..< b]"
proof -
  assume "a \<le> b" "b \<le> length xs"
  then have "take (b - a) (drop a (map (nth xs) [0 ..< length xs])) = map (nth xs) [a ..< b]"
    by (simp add: take_map drop_map)
  then show ?thesis by (simp add: slice_def map_nth)
qed

lemma stream_map:
  assumes "Suc j < length (snapStreamIndexList l)"
  shows "slice l (snapStreamIndexList l ! j) (snapStreamIndexList l ! (j + 1))
     = map (nth l) [snapStreamIndexList l ! j ..< snapStreamIndexList l ! Suc j]"
proof -
  have "snapStreamIndexList l ! j < snapStreamIndexList l ! Suc j"
    using assms by (intro idx_less) simp_all
  moreover have "snapStreamIndexList l ! Suc j < length l"
    using assms by (intro idx_in_range) simp_all
  ultimately show ?thesis by (simp add: slice_map)
qed

lemma stream_tl_map:
  assumes "Suc j < length (snapStreamIndexList l)"
  shows "tl (slice l (snapStreamIndexList l ! j) (snapStreamIndexList l ! (j + 1)))
     = map (nth l) [Suc (snapStreamIndexList l ! j) ..< snapStreamIndexList l ! Suc j]"
proof -
  have "snapStreamIndexList l ! j < snapStreamIndexList l ! Suc j"
    using assms by (intro idx_less) simp_all
  then show ?thesis unfolding stream_map [OF assms]
    by (simp add: upt_conv_Cons map_tl [symmetric] del: upt_Suc)
qed

lemma stream_head_in: "Suc j < length (snapStreamIndexList l) \<Longrightarrow> stream_head l j \<in> stream_set l j"
  unfolding stream_head_def stream_set_def
  by (rule imageI) (simp add: idx_less)

lemma stream_deltas_eq:
  "Suc j < length (snapStreamIndexList l) \<Longrightarrow>
   stream_deltas l j = map (nth l) [Suc (snapStreamIndexList l ! j) ..< snapStreamIndexList l ! Suc j]"
  using stream_tl_map [of j l] by (simp add: stream_deltas_def)

lemma stream_deltas_in:
  "Suc j < length (snapStreamIndexList l) \<Longrightarrow> set (stream_deltas l j) \<subseteq> stream_set l j"
  by (auto simp: stream_deltas_eq stream_set_def)

lemma nth_eq_distinct:
  "distinct l \<Longrightarrow> a < length l \<Longrightarrow> b < length l \<Longrightarrow> l ! a = l ! b \<longleftrightarrow> a = b"
  by (auto simp: nth_eq_iff_index_eq)

lemma stream_head_not_delta:
  assumes "distinct l" "Suc j < length (snapStreamIndexList l)"
  shows "stream_head l j \<notin> set (stream_deltas l j)"
proof
  let ?idx = "snapStreamIndexList l"
  assume "stream_head l j \<in> set (stream_deltas l j)"
  then obtain a where a: "Suc (?idx ! j) \<le> a" "a < ?idx ! Suc j" "l ! (?idx ! j) = l ! a"
    by (auto simp: stream_deltas_eq [OF assms(2)] stream_head_def)
  have b: "?idx ! Suc j < length l" using assms(2) by (intro idx_in_range) simp_all
  have "?idx ! j = a" using a b assms(1) by (simp add: nth_eq_distinct)
  with a show False by simp
qed

lemma stream_deltas_distinct:
  assumes "distinct l" "Suc j < length (snapStreamIndexList l)"
  shows "distinct (stream_deltas l j)"
proof -
  let ?idx = "snapStreamIndexList l"
  have b: "?idx ! Suc j < length l" using assms(2) by (intro idx_in_range) simp_all
  have "inj_on (nth l) {..< length l}" using assms(1) by (auto simp: inj_on_def nth_eq_distinct)
  then have "inj_on (nth l) (set [Suc (?idx ! j) ..< ?idx ! Suc j])"
    by (rule inj_on_subset) (use b in auto)
  then show ?thesis by (simp add: stream_deltas_eq [OF assms(2)] distinct_map)
qed

lemma stream_set_disjoint:
  assumes "distinct l" "Suc i < length (snapStreamIndexList l)" "Suc j < length (snapStreamIndexList l)"
    and "i \<noteq> j"
  shows "stream_set l i \<inter> stream_set l j = {}"
proof -
  let ?idx = "snapStreamIndexList l"
  have bi: "?idx ! Suc i < length l" using assms(2) by (intro idx_in_range) simp_all
  have bj: "?idx ! Suc j < length l" using assms(3) by (intro idx_in_range) simp_all
  have ranges: "{?idx ! i ..< ?idx ! Suc i} \<inter> {?idx ! j ..< ?idx ! Suc j} = {}"
  proof (cases "i < j")
    case True
    then have "?idx ! Suc i \<le> ?idx ! j" using assms(3) by (intro idx_le) simp_all
    then show ?thesis by auto
  next
    case False
    then have "j < i" using assms(4) by simp
    then have "?idx ! Suc j \<le> ?idx ! i" using assms(2) by (intro idx_le) simp_all
    then show ?thesis by auto
  qed
  show ?thesis
  proof (rule ccontr)
    assume "stream_set l i \<inter> stream_set l j \<noteq> {}"
    then obtain a b where ab: "?idx ! i \<le> a" "a < ?idx ! Suc i" "?idx ! j \<le> b" "b < ?idx ! Suc j"
      "l ! a = l ! b" by (auto simp: stream_set_def)
    then have "a = b" using bi bj assms(1) by (simp add: nth_eq_distinct)
    with ab ranges show False by auto
  qed
qed

lemma latest_not_in_stream_set:
  assumes "distinct l" "Suc i < length (snapStreamIndexList l)"
    and "last (snapStreamIndexList l) \<le> a" "a < length l"
  shows "l ! a \<notin> stream_set l i"
proof
  let ?idx = "snapStreamIndexList l"
  assume "l ! a \<in> stream_set l i"
  then obtain b where b: "?idx ! i \<le> b" "b < ?idx ! Suc i" "l ! a = l ! b"
    by (auto simp: stream_set_def)
  have bi: "?idx ! Suc i < length l" using assms(2) by (intro idx_in_range) simp_all
  have "a = b" using b bi assms(1,4) by (simp add: nth_eq_distinct)
  moreover have "last ?idx = ?idx ! (length ?idx - 1)" using idx_nonempty [of l] by (simp add: last_conv_nth)
  moreover have "?idx ! Suc i \<le> ?idx ! (length ?idx - 1)" using assms(2) by (intro idx_le) simp_all
  ultimately show False using b assms(3) by simp
qed

text \<open>Calls of a fold of loop bodies\<close>

lemma fold_calls:
  assumes "\<And>j s. j \<in> set js \<Longrightarrow> \<exists>cs. calls (prj (body j s)) = calls (prj s) @ cs \<and> fst ` set cs \<subseteq> E j"
  shows "\<exists>cs. calls (prj (fold body js s)) = calls (prj s) @ cs \<and> fst ` set cs \<subseteq> (\<Union>j\<in>set js. E j)"
  using assms
proof (induction js arbitrary: s)
  case Nil
  then show ?case by simp
next
  case (Cons j js)
  obtain c1 where c1: "calls (prj (body j s)) = calls (prj s) @ c1" "fst ` set c1 \<subseteq> E j"
    using Cons.prems [of j s] by auto
  obtain c2 where c2: "calls (prj (fold body js (body j s))) = calls (prj (body j s)) @ c2"
      "fst ` set c2 \<subseteq> (\<Union>j\<in>set js. E j)"
    using Cons.IH [of "body j s"] Cons.prems by auto
  have "calls (prj (fold body (j # js) s)) = calls (prj s) @ (c1 @ c2)" using c1 c2 by simp
  moreover have "fst ` set (c1 @ c2) \<subseteq> (\<Union>j\<in>set (j # js). E j)" using c1 c2 by auto
  ultimately show ?case by blast
qed

lemma fold_block:
  assumes R: "\<And>j s. j \<in> set (A @ i # C) \<Longrightarrow>
       \<exists>cs. calls (prj (body j s)) = calls (prj s) @ cs \<and> fst ` set cs \<subseteq> E j"
    and D: "\<And>j. j \<in> set A \<union> set C \<Longrightarrow> E j \<inter> E i = {}"
  shows "\<exists>csA cs csC. calls (prj (fold body (A @ i # C) s)) = calls (prj s) @ csA @ cs @ csC
        \<and> calls (prj (fold body A s)) = calls (prj s) @ csA
        \<and> calls (prj (body i (fold body A s))) = calls (prj (fold body A s)) @ cs
        \<and> fst ` set cs \<subseteq> E i
        \<and> fst ` set csA \<inter> E i = {} \<and> fst ` set csC \<inter> E i = {}"
proof -
  let ?sA = "fold body A s"
  obtain csA where a: "calls (prj ?sA) = calls (prj s) @ csA" "fst ` set csA \<subseteq> (\<Union>j\<in>set A. E j)"
    using fold_calls [of A prj body E s] R by auto
  obtain cs where b: "calls (prj (body i ?sA)) = calls (prj ?sA) @ cs" "fst ` set cs \<subseteq> E i"
    using R [of i ?sA] by auto
  obtain csC where c: "calls (prj (fold body C (body i ?sA))) = calls (prj (body i ?sA)) @ csC"
      "fst ` set csC \<subseteq> (\<Union>j\<in>set C. E j)"
    using fold_calls [of C prj body E "body i ?sA"] R by auto
  have "calls (prj (fold body (A @ i # C) s)) = calls (prj s) @ csA @ cs @ csC"
    using a b c by simp
  moreover have "fst ` set csA \<inter> E i = {}" using a(2) D by blast
  moreover have "fst ` set csC \<inter> E i = {}" using c(2) D by blast
  ultimately show ?thesis using a(1) b by blast
qed

lemma succeeded_fst [simp]: "fst ` set (succeeded ss) = set ss"
  by (force simp: succeeded_def)

lemma succeeded_snd: "c \<in> set (succeeded ss) \<Longrightarrow> snd c = None"
  by (auto simp: succeeded_def)

lemma exp_body_block:
  assumes "exp_body del now l (snapStreamIndexList l) j (g, w) = (g', w')"
  shows "(\<exists>k e. k < length (stream_deltas l j) \<and> g' = g \<and> \<not> always_succeeds del
            \<and> calls w' = calls w @ succeeded (take k (rev (stream_deltas l j)))
                  @ [(rev (stream_deltas l j) ! k, Some e)])
       \<or> (g' = next_gc now g (stream_head l j) \<and> \<not> deleteSnap g'
            \<and> calls w' = calls w @ succeeded (rev (stream_deltas l j)))
       \<or> (g' = next_gc now g (stream_head l j) \<and> deleteSnap g'
            \<and> (\<exists>r. calls w' = calls w @ succeeded (rev (stream_deltas l j)) @ [(stream_head l j, r)]
                  \<and> (always_succeeds del \<longrightarrow> r = None)))"
  using exp_body_trace [OF assms] by (simp add: stream_deltas_def stream_head_def)

lemma limit_body_block:
  assumes "limit_body del mb l (snapStreamIndexList l) j w = w'"
  shows "(\<exists>k e. k < length (stream_deltas l j) \<and> \<not> always_succeeds del
            \<and> calls w' = calls w @ succeeded (take k (rev (stream_deltas l j)))
                  @ [(rev (stream_deltas l j) ! k, Some e)])
       \<or> (\<not> int j < wrap64 (int (length (snapStreamIndexList l)) - mb)
            \<and> calls w' = calls w @ succeeded (rev (stream_deltas l j)))
       \<or> (int j < wrap64 (int (length (snapStreamIndexList l)) - mb)
            \<and> (\<exists>r. calls w' = calls w @ succeeded (rev (stream_deltas l j)) @ [(stream_head l j, r)]
                  \<and> (always_succeeds del \<longrightarrow> r = None)))"
  using limit_body_trace [OF assms] by (simp add: stream_deltas_def stream_head_def)

lemma failed_block_range:
  assumes "k < length ds"
  shows "fst ` set (succeeded (take k (rev ds)) @ [(rev ds ! k, Some e)]) \<subseteq> set ds"
proof -
  have "set (take k (rev ds)) \<subseteq> set ds" using set_take_subset [of k "rev ds"] by simp
  moreover have "rev ds ! k \<in> set ds" using assms nth_mem [of k "rev ds"] by simp
  ultimately show ?thesis by auto
qed

lemma exp_body_range:
  assumes "Suc j < length (snapStreamIndexList l)"
  shows "\<exists>cs. calls (snd (exp_body del now l (snapStreamIndexList l) j s)) = calls (snd s) @ cs
     \<and> fst ` set cs \<subseteq> stream_set l j"
proof -
  obtain g w where s: "s = (g, w)" by (cases s)
  obtain g' w' where b: "exp_body del now l (snapStreamIndexList l) j (g, w) = (g', w')"
    by (cases "exp_body del now l (snapStreamIndexList l) j (g, w)")
  note d = stream_deltas_in [OF assms] and h = stream_head_in [OF assms]
  from exp_body_block [OF b] show ?thesis
  proof (elim disjE exE conjE)
    fix k e assume "k < length (stream_deltas l j)"
      "calls w' = calls w @ succeeded (take k (rev (stream_deltas l j))) @ [(rev (stream_deltas l j) ! k, Some e)]"
    then show ?thesis using failed_block_range [of k "stream_deltas l j" e] d s b
      by (intro exI [of _ "succeeded (take k (rev (stream_deltas l j))) @ [(rev (stream_deltas l j) ! k, Some e)]"]) auto
  next
    assume "calls w' = calls w @ succeeded (rev (stream_deltas l j))"
    then show ?thesis using d s b by (intro exI [of _ "succeeded (rev (stream_deltas l j))"]) auto
  next
    fix r assume "calls w' = calls w @ succeeded (rev (stream_deltas l j)) @ [(stream_head l j, r)]"
    then show ?thesis using d h s b
      by (intro exI [of _ "succeeded (rev (stream_deltas l j)) @ [(stream_head l j, r)]"]) auto
  qed
qed

lemma limit_body_range:
  assumes "Suc j < length (snapStreamIndexList l)"
  shows "\<exists>cs. calls (limit_body del mb l (snapStreamIndexList l) j w) = calls w @ cs
     \<and> fst ` set cs \<subseteq> stream_set l j"
proof -
  note d = stream_deltas_in [OF assms] and h = stream_head_in [OF assms]
  have "limit_body del mb l (snapStreamIndexList l) j w = limit_body del mb l (snapStreamIndexList l) j w" ..
  from limit_body_block [OF this] show ?thesis
  proof (elim disjE exE conjE)
    fix k e assume "k < length (stream_deltas l j)"
      "calls (limit_body del mb l (snapStreamIndexList l) j w)
         = calls w @ succeeded (take k (rev (stream_deltas l j))) @ [(rev (stream_deltas l j) ! k, Some e)]"
    then show ?thesis using failed_block_range [of k "stream_deltas l j" e] d
      by (intro exI [of _ "succeeded (take k (rev (stream_deltas l j))) @ [(rev (stream_deltas l j) ! k, Some e)]"]) auto
  next
    assume "calls (limit_body del mb l (snapStreamIndexList l) j w) = calls w @ succeeded (rev (stream_deltas l j))"
    then show ?thesis using d by (intro exI [of _ "succeeded (rev (stream_deltas l j))"]) auto
  next
    fix r assume "calls (limit_body del mb l (snapStreamIndexList l) j w)
        = calls w @ succeeded (rev (stream_deltas l j)) @ [(stream_head l j, r)]"
    then show ?thesis using d h
      by (intro exI [of _ "succeeded (rev (stream_deltas l j)) @ [(stream_head l j, r)]"]) auto
  qed
qed

lemma exp_loop_fold:
  "exp_loop del now l idx k s = fold (exp_body del now l idx) (rev [0 ..< k]) s"
  by (induction k arbitrary: s) simp_all

lemma limit_loop_fold:
  "limit_loop del mb l idx i w = fold (limit_body del mb l idx) [i ..< length idx - 1] w"
proof (induction "length idx - 1 - i" arbitrary: i w)
  case 0
  then show ?case by (subst limit_loop.simps) simp
next
  case (Suc m)
  then have lt: "i < length idx - 1" by simp
  have "limit_loop del mb l idx i w = limit_loop del mb l idx (i + 1) (limit_body del mb l idx i w)"
    using lt by (subst limit_loop.simps) simp
  also have "\<dots> = fold (limit_body del mb l idx) [i + 1 ..< length idx - 1] (limit_body del mb l idx i w)"
    using Suc.hyps(2) by (intro Suc.hyps(1)) simp
  also have "\<dots> = fold (limit_body del mb l idx) [i ..< length idx - 1] w"
    using lt by (simp add: upt_conv_Cons)
  finally show ?case .
qed

section \<open>Claims about the sweeper\<close>

lemma sweep_stream1:
  "garbageCollectDeltaSnapshots (flaky_Delete [snap_at Delta 520]) stream1 (world_of stream1)
   = (Some Transient, \<lparr>store = [snap_at Full 500, snap_at Delta 510, snap_at Delta 520],
        calls = [(snap_at Delta 530, None), (snap_at Delta 520, Some Transient)],
        logs = [(Info, DeletingDelta (snap_at Delta 530)), (Info, DeletingDelta (snap_at Delta 520)),
                (Warn, FailedToDelete (snap_at Delta 520) Transient)]\<rparr>)"
  by (simp add: garbageCollectDeltaSnapshots_def stream1_def world_of_def flaky_Delete_def
      snap_at_def minutes_def Delete_def logf_def numeral_3_eq_3)

text \<open>
  Claim C6.  The sweeper issues its \<open>Delete\<close> calls for the deltas of the stream, that is
  for the elements after index 0 (\<open>tl snapStream\<close>), from the newest to the oldest, and for
  nothing else.  Either every call succeeds and the sweeper returns no error, or it stops
  at the first call that fails: the calls before it succeeded, no call follows it, the
  error returned is the error of that call, and the store is left as these calls left it,
  so that the deltas deleted before the failure stay deleted.
\<close>

theorem sweeper_newest_first_until_first_failure:
  "garbageCollectDeltaSnapshots del snapStream w = (r, w') \<Longrightarrow>
    (r = None \<and> calls w' = calls w @ map (\<lambda>s. (s, None)) (rev (tl snapStream))
       \<and> store w' = run_deletes del (rev (tl snapStream)) (store w))
    \<or> (\<exists>k e. r = Some e \<and> k < length (tl snapStream)
       \<and> calls w' = calls w @ map (\<lambda>s. (s, None)) (take k (rev (tl snapStream)))
                       @ [(rev (tl snapStream) ! k, Some e)]
       \<and> fst (del (rev (tl snapStream) ! k)
                (run_deletes del (take k (rev (tl snapStream))) (store w))) = Some e
       \<and> store w' = run_deletes del (take (Suc k) (rev (tl snapStream))) (store w))"
  using sweep_trace [of "length snapStream - 1" snapStream del w r w']
  by (simp add: garbageCollectDeltaSnapshots_def)

theorem sweeper_newest_first_until_first_failure_witness:
  "garbageCollectDeltaSnapshots (flaky_Delete [snap_at Delta 520]) stream1 (world_of stream1)
     = (Some Transient, \<lparr>store = [snap_at Full 500, snap_at Delta 510, snap_at Delta 520],
        calls = [(snap_at Delta 530, None), (snap_at Delta 520, Some Transient)],
        logs = [(Info, DeletingDelta (snap_at Delta 530)), (Info, DeletingDelta (snap_at Delta 520)),
                (Warn, FailedToDelete (snap_at Delta 520) Transient)]\<rparr>)
   \<and> (\<exists>k e. Some Transient = Some e \<and> k < length (tl stream1)
       \<and> [(snap_at Delta 530, None), (snap_at Delta 520, Some Transient)]
           = map (\<lambda>s. (s, None)) (take k (rev (tl stream1))) @ [(rev (tl stream1) ! k, Some e)]
       \<and> [snap_at Full 500, snap_at Delta 510, snap_at Delta 520]
           = run_deletes (flaky_Delete [snap_at Delta 520]) (take (Suc k) (rev (tl stream1))) stream1)"
  using sweeper_newest_first_until_first_failure [OF sweep_stream1] sweep_stream1
  by (auto simp: world_of_def)

section \<open>One pass: the list fails, the list is empty\<close>

lemma snapStreamIndexList_Nil: "snapStreamIndexList [] = [0]"
  by (simp add: snapStreamIndexList_def)

lemma limit_loop_done:
  "length idx - 1 \<le> i \<Longrightarrow> limit_loop del mb snapList idx i w = w"
  by (subst limit_loop.simps) simp

text \<open>
  Claim C7, as the code has it.  For the empty snapshot list the partitioner does not
  yield an empty sequence: it yields the one index 0.  The pass then issues no \<open>Delete\<close>
  call and leaves the store as it is, whatever the policy.
\<close>

theorem empty_list_one_start_no_deletes:
  "store_List ssr (store w) = Inr [] \<Longrightarrow>
     snapStreamIndexList [] = [0]
     \<and> calls (tick ssr now w) = calls w
     \<and> store (tick ssr now w) = store w"
  by (simp add: tick_def snapStreamIndexList_Nil Let_def limit_loop_done)

theorem empty_list_one_start_no_deletes_witness:
  "store_List \<lparr>store_List = Inr, store_Delete = flaky_Delete [],
       garbageCollectionPolicy = GarbageCollectionPolicyExponential, maxBackups = 3\<rparr>
       (store (world_of [])) = Inr []
   \<and> snapStreamIndexList [] = [0]
   \<and> calls (tick \<lparr>store_List = Inr, store_Delete = flaky_Delete [],
       garbageCollectionPolicy = GarbageCollectionPolicyExponential, maxBackups = 3\<rparr>
       37800000000000 (world_of [])) = []"
  using empty_list_one_start_no_deletes [of
      "\<lparr>store_List = Inr, store_Delete = flaky_Delete [],
        garbageCollectionPolicy = GarbageCollectionPolicyExponential, maxBackups = 3\<rparr>"
      "world_of []" 37800000000000]
  by (simp add: world_of_def)

theorem empty_list_start_sequence_counterexample:
  "snapStreamIndexList [] \<noteq> []"
  by (simp add: snapStreamIndexList_def)

text \<open>
  Claim C8.  When \<open>List\<close> returns an error the pass writes the line that announces it and
  one warning, and does nothing else: no \<open>Delete\<close> call, the store untouched, and a result
  that depends neither on the policy nor on the clock.
\<close>

theorem list_failure_skips_the_pass:
  "store_List ssr (store w) = Inl err \<Longrightarrow>
     tick ssr now w = w\<lparr>logs := logs w @ [(Info, Executing), (Warn, FailedToList err)]\<rparr>
     \<and> calls (tick ssr now w) = calls w
     \<and> store (tick ssr now w) = store w
     \<and> length (filter (\<lambda>e. fst e = Warn) (logs (tick ssr now w)))
         = length (filter (\<lambda>e. fst e = Warn) (logs w)) + 1"
  by (simp add: tick_def Let_def logf_def)

theorem list_failure_skips_the_pass_witness:
  "store_List \<lparr>store_List = (\<lambda>s. Inl Transient), store_Delete = flaky_Delete [],
       garbageCollectionPolicy = GarbageCollectionPolicyLimitBased, maxBackups = 1\<rparr>
       (store (world_of stream1)) = Inl Transient
   \<and> tick \<lparr>store_List = (\<lambda>s. Inl Transient), store_Delete = flaky_Delete [],
       garbageCollectionPolicy = GarbageCollectionPolicyLimitBased, maxBackups = 1\<rparr>
       37800000000000 (world_of stream1)
     = \<lparr>store = stream1, calls = [], logs = [(Info, Executing), (Warn, FailedToList Transient)]\<rparr>"
  using list_failure_skips_the_pass [of
      "\<lparr>store_List = (\<lambda>s. Inl Transient), store_Delete = flaky_Delete [],
        garbageCollectionPolicy = GarbageCollectionPolicyLimitBased, maxBackups = 1\<rparr>"
      "world_of stream1" Transient 37800000000000]
  by (simp add: world_of_def)

end
